theory Spec2Isabelle
  imports Main
begin

section \<open>Promises and \<open>Deferred\<close>\<close>

text \<open>
  \<open>Deferred<T>\<close> (common/util.ts) wraps a JavaScript \<open>Promise\<close> together with the two
  resolving functions the \<open>Promise\<close> constructor hands to its executor. The state of that
  promise is the only state a \<open>Deferred\<close> has. The resolving functions of one promise share
  an "already resolved" flag: whichever of them is called first settles the promise and
  every later call returns without doing anything. The model covers values that are not
  thenables, which is all this repository ever resolves a \<open>Deferred\<close> with.
\<close>

datatype ('a, 'x) promise = Pending | Resolved 'a | Rejected 'x

text \<open>\<open>new Deferred()\<close>: the promise starts pending.\<close>

definition new_Deferred :: "('a, 'x) promise" where
  "new_Deferred = Pending"

text \<open>\<open>resolve(result) { this._resolve(result); }\<close>\<close>

fun resolve :: "'a \<Rightarrow> ('a, 'x) promise \<Rightarrow> ('a, 'x) promise" where
  "resolve result Pending = Resolved result"
| "resolve result (Resolved v) = Resolved v"
| "resolve result (Rejected e) = Rejected e"

text \<open>\<open>reject(error) { this._reject(error); }\<close>\<close>

fun reject :: "'x \<Rightarrow> ('a, 'x) promise \<Rightarrow> ('a, 'x) promise" where
  "reject err Pending = Rejected err"
| "reject err (Resolved v) = Resolved v"
| "reject err (Rejected e) = Rejected e"

text \<open>A call of one of the two methods of a \<open>Deferred\<close>, and a sequence of such calls.\<close>

datatype ('a, 'x) deferred_call = Resolve 'a | Reject 'x

fun call_Deferred :: "('a, 'x) promise \<Rightarrow> ('a, 'x) deferred_call \<Rightarrow> ('a, 'x) promise" where
  "call_Deferred p (Resolve v) = resolve v p"
| "call_Deferred p (Reject e) = reject e p"

section \<open>Values thrown\<close>

text \<open>
  The exceptions of the two modules: a plain \<open>Error\<close> with its message, the
  \<open>CancellationTokenCancelledError\<close> with its message, and the \<open>FirestoreError\<close> object that
  the push source handed to \<open>observer.error\<close>. \<open>Thrown n\<close> is whatever the closure \<open>n\<close> of
  the application throws.
\<close>

datatype 'e exn =
    Error string
  | CancellationTokenCancelledError string
  | FirestoreError 'e
  | Thrown nat

section \<open>The cancellation token\<close>

text \<open>
  A callback in \<open>_onCancelledCallbacks\<close> is a closure. One kind is built by
  \<open>registerDeferred\<close>: it rejects the captured \<open>Deferred\<close> (an address in the store of
  deferreds) with a \<open>CancellationTokenCancelledError\<close> carrying the message. The others are
  closures of the surrounding application (\<open>unsubscribe\<close> in run_the_test.ts), identified
  by a number. What such a closure does to the application is not modelled, and it is
  taken not to call back into the token or the listener; what matters here is whether it
  returns (\<open>External\<close>) or throws (\<open>Throwing\<close>).
\<close>

datatype callback = RejectDeferred nat string | External nat | Throwing nat

text \<open>
  The function returned by \<open>onCancelled\<close>: either \<open>() => {}\<close> or
  \<open>() => { this._onCancelledCallbacks.delete(callbackId) }\<close>.
\<close>

datatype unregister = Noop | Delete nat

text \<open>
  \<open>Map<Symbol, () => void>\<close> keeps insertion order, which \<open>forEach\<close> follows:
  an association list. \<open>set\<close> replaces the value of a key in place or appends a new
  entry; \<open>delete\<close> removes the key.
\<close>

fun Map_set :: "'k \<Rightarrow> 'v \<Rightarrow> ('k \<times> 'v) list \<Rightarrow> ('k \<times> 'v) list" where
  "Map_set k v [] = [(k, v)]"
| "Map_set k v ((k', v') # m) = (if k' = k then (k, v) # m else (k', v') # Map_set k v m)"

fun Map_delete :: "'k \<Rightarrow> ('k \<times> 'v) list \<Rightarrow> ('k \<times> 'v) list" where
  "Map_delete k [] = []"
| "Map_delete k ((k', v') # m) = (if k' = k then Map_delete k m else (k', v') # Map_delete k m)"

record 'e CancellationToken =
  cancelled :: bool
  onCancelledCallbacks :: "(nat \<times> callback) list"
  onCancelledDeferred :: "(unit, 'e exn) promise"

section \<open>The snapshot listener\<close>

record SnapshotMetadata =
  hasPendingWrites :: bool
  fromCache :: bool

text \<open>A \<open>QuerySnapshot\<close> or \<open>DocumentSnapshot\<close>: its metadata and the rest of it.\<close>

record 'd Snapshot =
  metadata :: SnapshotMetadata
  contents :: 'd

text \<open>
  \<open>WaitForSnapshotOptions\<close>: both properties are optional. The fields carry the names of
  the locals that \<open>waitForSnapshot\<close> reads them into.
\<close>

record WaitForSnapshotOptions =
  desiredHasPendingWrites :: "bool option"
  desiredFromCache :: "bool option"

text \<open>
  The closure \<open>() => deferred.resolve()\<close> stored in \<open>this.onChange\<close>. Every pass of the
  loop builds a new closure over a new \<open>Deferred\<close>, so the address of the captured
  \<open>Deferred\<close> identifies the closure, and \<open>!==\<close> on closures is inequality here.
\<close>

datatype onChange_closure = ResolveDeferred nat

record ('d, 'e) SnapshotListener =
  snapshots :: "'d Snapshot list"
  error :: "'e option"
  completed :: bool
  onChange :: "onChange_closure option"

section \<open>The world: the two objects, the store of deferreds, allocation\<close>

text \<open>
  \<open>deferreds\<close> maps the address of each \<open>Deferred\<close> made by \<open>waitForSnapshot\<close> to the state
  of its promise; \<open>next_id\<close> is the next unused address and the next unused \<open>Symbol()\<close>.
  \<open>invoked\<close> records, in order, every cancellation callback that has been called: it is
  how the number of invocations of a callback is observed.
\<close>

record ('d, 'e) world =
  cancellationToken :: "'e CancellationToken"
  listener :: "('d, 'e) SnapshotListener"
  deferreds :: "nat \<Rightarrow> (unit, 'e exn) promise"
  next_id :: nat
  invoked :: "callback list"

definition init_world :: "('d, 'e) world" where
  "init_world =
     \<lparr> cancellationToken =
         \<lparr> cancelled = False, onCancelledCallbacks = [], onCancelledDeferred = new_Deferred \<rparr>,
       listener = \<lparr> snapshots = [], error = None, completed = False, onChange = None \<rparr>,
       deferreds = (\<lambda>_. Pending),
       next_id = 0,
       invoked = [] \<rparr>"

subsection \<open>CancellationToken\<close>

text \<open>
  Calling a callback, \<open>callback()\<close>: what it throws, if anything, and the world
  afterwards. The closure of \<open>registerDeferred\<close> rejects its \<open>Deferred\<close> and returns, since
  \<open>reject\<close> never throws; a closure of the application returns or throws.
\<close>

fun call_callback :: "callback \<Rightarrow> ('d, 'e) world \<Rightarrow> 'e exn option \<times> ('d, 'e) world" where
  "call_callback (RejectDeferred d message) w =
     (None,
      w\<lparr> deferreds := (deferreds w)(d := reject (CancellationTokenCancelledError message) (deferreds w d)),
         invoked := invoked w @ [RejectDeferred d message] \<rparr>)"
| "call_callback (External n) w = (None, w\<lparr> invoked := invoked w @ [External n] \<rparr>)"
| "call_callback (Throwing n) w = (Some (Thrown n), w\<lparr> invoked := invoked w @ [Throwing n] \<rparr>)"

text \<open>Whether a callback throws when it is called.\<close>

fun throws :: "callback \<Rightarrow> bool" where
  "throws (RejectDeferred d message) = False"
| "throws (External n) = False"
| "throws (Throwing n) = True"

text \<open>\<open>throwIfCancelled()\<close>\<close>

definition throwIfCancelled :: "('d, 'e) world \<Rightarrow> 'e exn option" where
  "throwIfCancelled w =
     (if cancelled (cancellationToken w)
      then Some (CancellationTokenCancelledError ''operation cancelled'') else None)"

text \<open>
  \<open>onCancelled(callback)\<close>: the world afterwards, and the function returned (\<open>Inr\<close>) or
  what was thrown (\<open>Inl\<close>). On a cancelled token the callback is called before anything
  is returned, so what it throws leaves \<open>onCancelled\<close>.
\<close>

definition onCancelled ::
  "callback \<Rightarrow> ('d, 'e) world \<Rightarrow> ('d, 'e) world \<times> ('e exn + unregister)" where
  "onCancelled cb w =
     (if cancelled (cancellationToken w)
      then (case call_callback cb w of
              (Some e, w') \<Rightarrow> (w', Inl e)
            | (None, w') \<Rightarrow> (w', Inr Noop))
      else
        let callbackId = next_id w
        in (w\<lparr> cancellationToken := (cancellationToken w)
                   \<lparr> onCancelledCallbacks :=
                       Map_set callbackId cb (onCancelledCallbacks (cancellationToken w)) \<rparr>,
                next_id := Suc callbackId \<rparr>,
            Inr (Delete callbackId)))"

text \<open>Calling the function that \<open>onCancelled\<close> returned.\<close>

fun call_unregister :: "unregister \<Rightarrow> ('d, 'e) world \<Rightarrow> ('d, 'e) world" where
  "call_unregister Noop w = w"
| "call_unregister (Delete callbackId) w =
     w\<lparr> cancellationToken := (cancellationToken w)
          \<lparr> onCancelledCallbacks :=
              Map_delete callbackId (onCancelledCallbacks (cancellationToken w)) \<rparr> \<rparr>"

text \<open>\<open>registerDeferred(deferred, message?)\<close>\<close>

definition registerDeferred ::
  "nat \<Rightarrow> string option \<Rightarrow> ('d, 'e) world \<Rightarrow> ('d, 'e) world \<times> ('e exn + unregister)" where
  "registerDeferred d message w =
     onCancelled
       (RejectDeferred d (case message of None \<Rightarrow> ''operation cancelled'' | Some m \<Rightarrow> m)) w"

text \<open>
  \<open>_onCancelledCallbacks.forEach(callback => callback())\<close>: the callbacks are called in
  the order of the map, and there is no \<open>try\<close> around the call, so the first callback that
  throws ends the iteration and what it threw leaves \<open>forEach\<close>. No callback of the model
  touches the map, so the iteration is over the entries as they were when it began.
\<close>

fun forEach_call ::
  "(nat \<times> callback) list \<Rightarrow> ('d, 'e) world \<Rightarrow> 'e exn option \<times> ('d, 'e) world" where
  "forEach_call [] w = (None, w)"
| "forEach_call ((k, cb) # m) w =
     (case call_callback cb w of
        (Some e, w') \<Rightarrow> (Some e, w')
      | (None, w') \<Rightarrow> forEach_call m w')"

text \<open>
  \<open>CancellationTokenSource.cancel()\<close>, which is
  \<open>this.cancellationToken[CANCELLATION_TOKEN_CANCEL]()\<close>: what it throws, if anything, and
  the world afterwards.
\<close>

definition cancel :: "('d, 'e) world \<Rightarrow> 'e exn option \<times> ('d, 'e) world" where
  "cancel w =
     (let w1 = w\<lparr> cancellationToken := (cancellationToken w)
                   \<lparr> cancelled := True,
                     onCancelledDeferred := resolve () (onCancelledDeferred (cancellationToken w)) \<rparr> \<rparr>
      in forEach_call (onCancelledCallbacks (cancellationToken w1)) w1)"

subsection \<open>SnapshotListener\<close>

text \<open>\<open>clear() { this.snapshots.splice(0); }\<close>\<close>

definition clear :: "('d, 'e) world \<Rightarrow> ('d, 'e) world" where
  "clear w = w\<lparr> listener := (listener w)\<lparr> snapshots := [] \<rparr> \<rparr>"

text \<open>\<open>this.onChange?.()\<close>\<close>

definition call_onChange :: "('d, 'e) world \<Rightarrow> ('d, 'e) world" where
  "call_onChange w =
     (case onChange (listener w) of
        None \<Rightarrow> w
      | Some (ResolveDeferred d) \<Rightarrow> w\<lparr> deferreds := (deferreds w)(d := resolve () (deferreds w d)) \<rparr>)"

definition observer_next :: "'d Snapshot \<Rightarrow> ('d, 'e) world \<Rightarrow> ('d, 'e) world" where
  "observer_next snapshot w =
     call_onChange (w\<lparr> listener := (listener w)\<lparr> snapshots := snapshots (listener w) @ [snapshot] \<rparr> \<rparr>)"

definition observer_error :: "'e \<Rightarrow> ('d, 'e) world \<Rightarrow> ('d, 'e) world" where
  "observer_error err w =
     call_onChange (w\<lparr> listener := (listener w)\<lparr> error := Some err \<rparr> \<rparr>)"

definition observer_complete :: "('d, 'e) world \<Rightarrow> ('d, 'e) world" where
  "observer_complete w =
     call_onChange (w\<lparr> listener := (listener w)\<lparr> completed := True \<rparr> \<rparr>)"

text \<open>\<open>options?.hasPendingWrites\<close> and \<open>options?.fromCache\<close>; \<open>None\<close> is \<open>undefined\<close>.\<close>

definition options_hasPendingWrites :: "WaitForSnapshotOptions option \<Rightarrow> bool option" where
  "options_hasPendingWrites options =
     (case options of None \<Rightarrow> None | Some opts \<Rightarrow> desiredHasPendingWrites opts)"

definition options_fromCache :: "WaitForSnapshotOptions option \<Rightarrow> bool option" where
  "options_fromCache options =
     (case options of None \<Rightarrow> None | Some opts \<Rightarrow> desiredFromCache opts)"

text \<open>
  The inner loop \<open>while (this.snapshots.length > 0)\<close>: \<open>shift()\<close> takes the head, the two
  \<open>continue\<close>s drop it, \<open>return snapshot\<close> ends the call. The result is the snapshot
  returned, if any, and what is left of \<open>this.snapshots\<close>.
\<close>

fun drain :: "WaitForSnapshotOptions option \<Rightarrow> 'd Snapshot list \<Rightarrow> 'd Snapshot option \<times> 'd Snapshot list" where
  "drain options [] = (None, [])"
| "drain options (snapshot # rest) =
     (if options_hasPendingWrites options \<noteq> None \<and>
         Some (hasPendingWrites (metadata snapshot)) \<noteq> options_hasPendingWrites options
      then drain options rest
      else if options_fromCache options \<noteq> None \<and>
         Some (fromCache (metadata snapshot)) \<noteq> options_fromCache options
      then drain options rest
      else (Some snapshot, rest))"

text \<open>
  The locals of a call of \<open>waitForSnapshot\<close> that is suspended at
  \<open>await deferred.promise\<close>: what the rest of the call needs when it is resumed.
\<close>

record frame =
  f_options :: "WaitForSnapshotOptions option"
  f_deferred :: nat
  f_unregisterDeferred :: unregister
  f_onChange :: onChange_closure

text \<open>
  How far a call of the async function gets before it gives up control: it returns a
  snapshot, it throws (the promise of the call is rejected), or it is suspended at the
  \<open>await\<close>.
\<close>

datatype ('d, 'e) run = Returned "'d Snapshot" | Threw "'e exn" | Suspended frame

text \<open>
  One pass of \<open>while (true)\<close>, from the top of the loop body to \<open>return\<close>, \<open>throw\<close> or
  the \<open>await\<close>. \<open>registerDeferred\<close> is called before the \<open>try\<close>, so anything it threw
  would leave the call at once.
\<close>

definition loop_pass ::
  "WaitForSnapshotOptions option \<Rightarrow> ('d, 'e) world \<Rightarrow> ('d, 'e) run \<times> ('d, 'e) world" where
  "loop_pass options w =
     (if onChange (listener w) \<noteq> None
      then (Threw (Error ''illegal state: this.onChange !== null''), w)
      else case error (listener w) of
        Some err \<Rightarrow> (Threw (FirestoreError err), w)
      | None \<Rightarrow>
          if completed (listener w) then (Threw (Error ''listener is completed''), w)
          else
            (case drain options (snapshots (listener w)) of
               (Some snapshot, rest) \<Rightarrow>
                 (Returned snapshot, w\<lparr> listener := (listener w)\<lparr> snapshots := rest \<rparr> \<rparr>)
             | (None, rest) \<Rightarrow>
                 let w1 = w\<lparr> listener := (listener w)\<lparr> snapshots := rest \<rparr> \<rparr>;
                     deferred = next_id w1;
                     w2 = w1\<lparr> deferreds := (deferreds w1)(deferred := new_Deferred),
                             next_id := Suc deferred \<rparr>;
                     (w3, registered) = registerDeferred deferred None w2
                 in (case registered of
                       Inl e \<Rightarrow> (Threw e, w3)
                     | Inr unregisterDeferred \<Rightarrow>
                         (Suspended \<lparr> f_options = options, f_deferred = deferred,
                                      f_unregisterDeferred = unregisterDeferred,
                                      f_onChange = ResolveDeferred deferred \<rparr>,
                          w3\<lparr> listener := (listener w3)
                                \<lparr> onChange := Some (ResolveDeferred deferred) \<rparr> \<rparr>))))"

text \<open>A call \<open>waitForSnapshot(options)\<close>, up to the point where it gives up control.\<close>

definition waitForSnapshot ::
  "WaitForSnapshotOptions option \<Rightarrow> ('d, 'e) world \<Rightarrow> ('d, 'e) run \<times> ('d, 'e) world" where
  "waitForSnapshot options w =
     (if onChange (listener w) \<noteq> None
      then (Threw (Error ''only one call to waitForSnapshotFromServer() at a time''), w)
      else loop_pass options w)"

text \<open>
  The two \<open>finally\<close> blocks that run when the \<open>await\<close> is left. The inner one throws the
  illegal-state error, replacing whatever was being thrown, or clears \<open>this.onChange\<close>;
  the outer one calls \<open>unregisterDeferred()\<close> in either case.
\<close>

definition wake_finally :: "frame \<Rightarrow> ('d, 'e) world \<Rightarrow> 'e exn option \<times> ('d, 'e) world" where
  "wake_finally f w =
     (if onChange (listener w) \<noteq> Some (f_onChange f)
      then (Some (Error ''illegal state: this.onChange !== onChange''),
            call_unregister (f_unregisterDeferred f) w)
      else (None,
            call_unregister (f_unregisterDeferred f)
              (w\<lparr> listener := (listener w)\<lparr> onChange := None \<rparr> \<rparr>)))"

text \<open>
  Resuming the suspended call once its promise is settled: the \<open>finally\<close> blocks, then the
  rejection is rethrown or the loop goes round again. While the promise is pending the
  call stays suspended.
\<close>

definition resume :: "frame \<Rightarrow> ('d, 'e) world \<Rightarrow> ('d, 'e) run \<times> ('d, 'e) world" where
  "resume f w =
     (case deferreds w (f_deferred f) of
        Pending \<Rightarrow> (Suspended f, w)
      | Rejected e \<Rightarrow>
          (case wake_finally f w of
             (Some illegal, w') \<Rightarrow> (Threw illegal, w')
           | (None, w') \<Rightarrow> (Threw e, w'))
      | Resolved u \<Rightarrow>
          (case wake_finally f w of
             (Some illegal, w') \<Rightarrow> (Threw illegal, w')
           | (None, w') \<Rightarrow> loop_pass (f_options f) w'))"

text \<open>
  What \<open>WaitForSnapshotOptions\<close> asks of a snapshot, in the words of its documentation:
  a property that is not undefined is the desired value of the snapshot's metadata
  property of the same name, and snapshots that differ from it are dropped.
\<close>

definition matches :: "WaitForSnapshotOptions option \<Rightarrow> 'd Snapshot \<Rightarrow> bool" where
  "matches options snapshot \<longleftrightarrow>
     (case options_hasPendingWrites options of
        None \<Rightarrow> True | Some b \<Rightarrow> hasPendingWrites (metadata snapshot) = b) \<and>
     (case options_fromCache options of
        None \<Rightarrow> True | Some b \<Rightarrow> fromCache (metadata snapshot) = b)"

section \<open>Callers and the event loop\<close>

text \<open>
  \<open>n\<close> calls of \<open>waitForSnapshot(options)\<close>, one after the other, each on the state the
  one before left: the outcomes in order and the final state.
\<close>

fun successive_calls ::
  "WaitForSnapshotOptions option \<Rightarrow> nat \<Rightarrow> ('d, 'e) world \<Rightarrow> ('d, 'e) run list \<times> ('d, 'e) world" where
  "successive_calls options 0 w = ([], w)"
| "successive_calls options (Suc n) w =
     (case waitForSnapshot options w of
        (r, w1) \<Rightarrow> (case successive_calls options n w1 of (rs, w2) \<Rightarrow> (r # rs, w2)))"

text \<open>The push source delivers the snapshots of a list, first to last.\<close>

fun observer_next_all :: "'d Snapshot list \<Rightarrow> ('d, 'e) world \<Rightarrow> ('d, 'e) world" where
  "observer_next_all [] w = w"
| "observer_next_all (snapshot # rest) w = observer_next_all rest (observer_next snapshot w)"

text \<open>A snapshot with the given \<open>hasPendingWrites\<close>, \<open>fromCache\<close> and contents, for examples.\<close>

definition example_snapshot :: "bool \<Rightarrow> bool \<Rightarrow> 'd \<Rightarrow> 'd Snapshot" where
  "example_snapshot pending cached c =
     \<lparr> metadata = \<lparr> hasPendingWrites = pending, fromCache = cached \<rparr>, contents = c \<rparr>"

text \<open>
  JavaScript runs one job at a time. What can happen to a listener and its token, job by
  job: the push source calls one of the three observer functions, somebody calls
  \<open>clear()\<close>, the source is cancelled, the application registers a callback of its own
  with the token (one that returns or one that throws), \<open>waitForSnapshot\<close> is called,
  or a suspended call whose promise is settled is resumed. The state of the system is
  the world and the frames of the calls that are suspended.
\<close>

datatype ('d, 'e) event =
    Next "'d Snapshot"
  | Err 'e
  | Complete
  | Clear
  | Cancel
  | OnCancelled nat
  | OnCancelledThrowing nat
  | Call "WaitForSnapshotOptions option"
  | Wake nat

fun suspend :: "('d, 'e) run \<Rightarrow> frame list \<Rightarrow> frame list" where
  "suspend (Suspended f) fs = f # fs"
| "suspend (Returned snapshot) fs = fs"
| "suspend (Threw e) fs = fs"

fun step :: "('d, 'e) event \<Rightarrow> ('d, 'e) world \<times> frame list \<Rightarrow> ('d, 'e) world \<times> frame list" where
  "step (Next snapshot) (w, fs) = (observer_next snapshot w, fs)"
| "step (Err err) (w, fs) = (observer_error err w, fs)"
| "step Complete (w, fs) = (observer_complete w, fs)"
| "step Clear (w, fs) = (clear w, fs)"
| "step Cancel (w, fs) = (snd (cancel w), fs)"
| "step (OnCancelled n) (w, fs) = (fst (onCancelled (External n) w), fs)"
| "step (OnCancelledThrowing n) (w, fs) = (fst (onCancelled (Throwing n) w), fs)"
| "step (Call options) (w, fs) =
     (case waitForSnapshot options w of (r, w') \<Rightarrow> (w', suspend r fs))"
| "step (Wake i) (w, fs) =
     (if i < length fs \<and> deferreds w (f_deferred (fs ! i)) \<noteq> Pending
      then case resume (fs ! i) w of (r, w') \<Rightarrow> (w', suspend r (take i fs @ drop (Suc i) fs))
      else (w, fs))"

fun exec :: "('d, 'e) event list \<Rightarrow> ('d, 'e) world \<times> frame list \<Rightarrow> ('d, 'e) world \<times> frame list" where
  "exec [] s = s"
| "exec (ev # evs) s = exec evs (step ev s)"

text \<open>
  What holds of every state the system reaches. Keys of the callback map are symbols
  already handed out. A promise that is rejected was rejected by the closure of
  \<open>registerDeferred\<close> with its default message. With no call suspended, \<open>onChange\<close>
  is null and the map holds no rejecting closure. With a call suspended there is exactly
  one, \<open>onChange\<close> is its closure, the only rejecting closure in the map is its own,
  under the key its unregistration function deletes, and while its promise is pending
  that closure is registered.
\<close>

definition registration_of :: "frame \<Rightarrow> (nat \<times> callback) list \<Rightarrow> bool" where
  "registration_of f m \<longleftrightarrow>
     (\<forall>k d msg. (k, RejectDeferred d msg) \<in> set m \<longrightarrow>
        f_unregisterDeferred f = Delete k \<and> d = f_deferred f \<and> msg = ''operation cancelled'')"

definition invariant :: "('d, 'e) world \<times> frame list \<Rightarrow> bool" where
  "invariant s \<longleftrightarrow>
     (case s of (w, fs) \<Rightarrow>
        (\<forall>k \<in> fst ` set (onCancelledCallbacks (cancellationToken w)). k < next_id w) \<and>
        (\<forall>d e. deferreds w d = Rejected e \<longrightarrow>
           e = CancellationTokenCancelledError ''operation cancelled'') \<and>
        (case fs of
           [] \<Rightarrow> onChange (listener w) = None \<and>
                 (\<forall>k d msg. (k, RejectDeferred d msg) \<notin> set (onCancelledCallbacks (cancellationToken w)))
         | f # fs' \<Rightarrow>
             fs' = [] \<and>
             onChange (listener w) = Some (f_onChange f) \<and>
             f_onChange f = ResolveDeferred (f_deferred f) \<and>
             registration_of f (onCancelledCallbacks (cancellationToken w)) \<and>
             (deferreds w (f_deferred f) = Pending \<longrightarrow>
                (\<exists>k. f_unregisterDeferred f = Delete k \<and>
                   (k, RejectDeferred (f_deferred f) ''operation cancelled'')
                     \<in> set (onCancelledCallbacks (cancellationToken w))))))"

section \<open>Deferred settles once\<close>

lemma call_Deferred_settled:
  "p \<noteq> Pending \<Longrightarrow> foldl call_Deferred p calls = p"
proof (induction calls arbitrary: p)
  case Nil
  show ?case by simp
next
  case (Cons c calls)
  from Cons.prems have "call_Deferred p c = p"
    by (cases p; cases c) simp_all
  with Cons show ?case by simp
qed

text \<open>
  Claim C8. A \<open>Deferred\<close> settles at most once. Whatever calls of \<open>resolve\<close> and \<open>reject\<close>
  follow, a new \<open>Deferred\<close> whose first call is \<open>resolve(v)\<close> ends resolved with \<open>v\<close>, and
  one whose first call is \<open>reject(e)\<close> ends rejected with \<open>e\<close>. In particular a second
  \<open>resolve\<close> keeps the first value, and \<open>reject\<close> after \<open>resolve\<close> changes nothing.
\<close>

theorem Deferred_settles_once:
  "foldl call_Deferred new_Deferred (Resolve v # calls) = Resolved v \<and>
   foldl call_Deferred new_Deferred (Reject e # calls) = Rejected e \<and>
   resolve v2 (resolve v1 new_Deferred) = Resolved v1 \<and>
   reject e2 (resolve v1 new_Deferred) = Resolved v1 \<and>
   reject e2 (reject e1 new_Deferred) = Rejected e1 \<and>
   resolve v2 (reject e1 new_Deferred) = Rejected e1"
  by (simp add: new_Deferred_def call_Deferred_settled)

section \<open>\<open>clear()\<close>\<close>

text \<open>
  Claim C9. \<open>clear()\<close> leaves the buffer empty and changes nothing else: the recorded
  error, the completed flag and the \<open>onChange\<close> slot of the listener are as before, and
  so are the token, the deferreds and the rest of the world.
\<close>

theorem clear_only_empties_buffer:
  "snapshots (listener (clear w)) = [] \<and>
   error (listener (clear w)) = error (listener w) \<and>
   completed (listener (clear w)) = completed (listener w) \<and>
   onChange (listener (clear w)) = onChange (listener w) \<and>
   cancellationToken (clear w) = cancellationToken w \<and>
   deferreds (clear w) = deferreds w \<and>
   next_id (clear w) = next_id w \<and>
   invoked (clear w) = invoked w"
  by (simp add: clear_def)

section \<open>Cancelling\<close>

lemma call_callback_fst [simp]: "fst (call_callback cb w) = (if throws cb then (case cb of Throwing n \<Rightarrow> Some (Thrown n) | _ \<Rightarrow> None) else None)"
  by (cases cb) simp_all

lemma call_callback_invoked [simp]: "invoked (snd (call_callback cb w)) = invoked w @ [cb]"
  by (cases cb) simp_all

lemma call_callback_token [simp]:
  "cancellationToken (snd (call_callback cb w)) = cancellationToken w"
  by (cases cb) simp_all

lemma call_callback_listener [simp]: "listener (snd (call_callback cb w)) = listener w"
  by (cases cb) simp_all

lemma call_callback_next_id [simp]: "next_id (snd (call_callback cb w)) = next_id w"
  by (cases cb) simp_all

lemma forEach_call_Cons:
  "forEach_call ((k, cb) # m) w =
     (if throws cb then call_callback cb w else forEach_call m (snd (call_callback cb w)))"
  by (cases cb) simp_all

declare forEach_call.simps(2) [simp del]

lemma forEach_call_token [simp]:
  "cancellationToken (snd (forEach_call m w)) = cancellationToken w"
proof (induction m arbitrary: w)
  case Nil
  show ?case by simp
next
  case (Cons p m)
  then show ?case by (cases p) (simp add: forEach_call_Cons)
qed

lemma forEach_call_listener [simp]: "listener (snd (forEach_call m w)) = listener w"
proof (induction m arbitrary: w)
  case Nil
  show ?case by simp
next
  case (Cons p m)
  then show ?case by (cases p) (simp add: forEach_call_Cons)
qed

lemma forEach_call_next_id [simp]: "next_id (snd (forEach_call m w)) = next_id w"
proof (induction m arbitrary: w)
  case Nil
  show ?case by simp
next
  case (Cons p m)
  then show ?case by (cases p) (simp add: forEach_call_Cons)
qed

lemma forEach_call_returns:
  "fst (forEach_call m w) = None \<longleftrightarrow> (\<forall>cb \<in> snd ` set m. \<not> throws cb)"
proof (induction m arbitrary: w)
  case Nil
  show ?case by simp
next
  case (Cons p m)
  obtain k cb where p: "p = (k, cb)" by (cases p)
  show ?case
    unfolding p forEach_call_Cons using Cons.IH by (cases cb) auto
qed

lemma forEach_call_invoked:
  "\<forall>cb \<in> snd ` set m. \<not> throws cb \<Longrightarrow>
   invoked (snd (forEach_call m w)) = invoked w @ map snd m"
proof (induction m arbitrary: w)
  case Nil
  show ?case by simp
next
  case (Cons p m)
  obtain k cb where p: "p = (k, cb)" by (cases p)
  from Cons.prems have "\<not> throws cb" and "\<forall>cb \<in> snd ` set m. \<not> throws cb"
    by (simp_all add: p)
  with Cons.IH show ?case by (simp add: p forEach_call_Cons)
qed


lemma cancel_token:
  "cancellationToken (snd (cancel w)) =
     (cancellationToken w)\<lparr> cancelled := True,
        onCancelledDeferred := resolve () (onCancelledDeferred (cancellationToken w)) \<rparr>"
  by (simp add: cancel_def Let_def)

lemma cancel_listener [simp]: "listener (snd (cancel w)) = listener w"
  by (simp add: cancel_def Let_def)

lemma cancel_next_id [simp]: "next_id (snd (cancel w)) = next_id w"
  by (simp add: cancel_def Let_def)

lemma cancel_callbacks [simp]:
  "onCancelledCallbacks (cancellationToken (snd (cancel w))) =
     onCancelledCallbacks (cancellationToken w)"
  by (simp add: cancel_token)

lemma cancel_returns:
  "fst (cancel w) = None \<longleftrightarrow>
     (\<forall>cb \<in> snd ` set (onCancelledCallbacks (cancellationToken w)). \<not> throws cb)"
  by (simp add: cancel_def Let_def forEach_call_returns)








section \<open>Registering and unregistering callbacks\<close>

lemma Map_set_fresh: "k \<notin> fst ` set m \<Longrightarrow> Map_set k v m = m @ [(k, v)]"
  by (induction m) auto

lemma Map_delete_filter: "Map_delete k m = filter (\<lambda>p. fst p \<noteq> k) m"
  by (induction m) auto

lemma call_unregister_invoked [simp]: "invoked (call_unregister u w) = invoked w"
  by (cases u) simp_all

lemma call_unregister_listener [simp]: "listener (call_unregister u w) = listener w"
  by (cases u) simp_all

lemma call_unregister_deferreds [simp]: "deferreds (call_unregister u w) = deferreds w"
  by (cases u) simp_all

lemma call_unregister_next_id [simp]: "next_id (call_unregister u w) = next_id w"
  by (cases u) simp_all

lemma call_unregister_cancelled [simp]:
  "cancelled (cancellationToken (call_unregister u w)) = cancelled (cancellationToken w)"
  by (cases u) simp_all

lemma onCancelled_cancelled:
  "cancelled (cancellationToken w) \<Longrightarrow>
   onCancelled cb w =
     (snd (call_callback cb w),
      case fst (call_callback cb w) of None \<Rightarrow> Inr Noop | Some e \<Rightarrow> Inl e)"
  by (cases "call_callback cb w"; cases "fst (call_callback cb w)")
     (simp_all add: onCancelled_def)

lemma onCancelled_active:
  assumes "\<not> cancelled (cancellationToken w)"
    and "next_id w \<notin> fst ` set (onCancelledCallbacks (cancellationToken w))"
  shows "onCancelled cb w =
     (w\<lparr> cancellationToken := (cancellationToken w)
          \<lparr> onCancelledCallbacks :=
              onCancelledCallbacks (cancellationToken w) @ [(next_id w, cb)] \<rparr>,
        next_id := Suc (next_id w) \<rparr>,
      Inr (Delete (next_id w)))"
  using assms by (simp add: onCancelled_def Let_def Map_set_fresh)

lemma forEach_call_append:
  "\<forall>cb \<in> snd ` set m. \<not> throws cb \<Longrightarrow>
   forEach_call (m @ m') w = forEach_call m' (snd (forEach_call m w))"
proof (induction m arbitrary: w)
  case Nil
  show ?case by simp
next
  case (Cons p m)
  obtain k cb where p: "p = (k, cb)" by (cases p)
  from Cons.prems have "\<not> throws cb" and "\<forall>cb \<in> snd ` set m. \<not> throws cb"
    by (simp_all add: p)
  with Cons.IH show ?case by (simp add: p forEach_call_Cons)
qed

lemma forEach_call_invoked_last:
  assumes "\<forall>cb' \<in> snd ` set m. \<not> throws cb'"
  shows "invoked (snd (forEach_call (m @ [(k, cb)]) w)) = invoked w @ map snd m @ [cb]"
  unfolding forEach_call_append [OF assms]
  by (simp add: forEach_call_Cons forEach_call_invoked [OF assms])

lemma cancel_invoked_last:
  assumes "\<forall>cb' \<in> snd ` set m. \<not> throws cb'"
    and "onCancelledCallbacks (cancellationToken w) = m @ [(k, cb)]"
  shows "invoked (snd (cancel w)) = invoked w @ map snd m @ [cb]"
  by (simp add: cancel_def Let_def assms(2) forEach_call_invoked_last [OF assms(1)])

text \<open>
  Claim C7, as the code has it. On a cancelled token \<open>onCancelled(callback)\<close> calls the
  callback before it returns; if the callback returns, the function handed back does
  nothing, and if it throws, nothing is handed back. On a token not yet cancelled it
  appends the callback to the map under a new symbol and returns the function that
  deletes that symbol; a later \<open>cancel()\<close> calls the callback after the callbacks
  registered earlier, provided none of those throws. Calling the returned function after
  \<open>cancel()\<close> never calls anything and leaves the flag, the deferreds and the listener
  alone, but it is not without effect: it removes the callback's entry, which \<open>cancel()\<close>
  had left in the map, and the map is then what it was before the registration.
\<close>

theorem onCancelled_contract:
  "(cancelled (cancellationToken w) \<longrightarrow>
      fst (onCancelled cb w) = snd (call_callback cb w) \<and>
      invoked (fst (onCancelled cb w)) = invoked w @ [cb] \<and>
      snd (onCancelled cb w) =
        (case fst (call_callback cb w) of None \<Rightarrow> Inr Noop | Some e \<Rightarrow> Inl e) \<and>
      (fst (call_callback cb w) = None \<longleftrightarrow> \<not> throws cb) \<and>
      call_unregister Noop (fst (onCancelled cb w)) = fst (onCancelled cb w)) \<and>
   (\<not> cancelled (cancellationToken w) \<and>
    next_id w \<notin> fst ` set (onCancelledCallbacks (cancellationToken w)) \<longrightarrow>
      fst (onCancelled cb w) =
        w\<lparr> cancellationToken := (cancellationToken w)
             \<lparr> onCancelledCallbacks :=
                 onCancelledCallbacks (cancellationToken w) @ [(next_id w, cb)] \<rparr>,
           next_id := Suc (next_id w) \<rparr> \<and>
      snd (onCancelled cb w) = Inr (Delete (next_id w)) \<and>
      ((\<forall>cb' \<in> snd ` set (onCancelledCallbacks (cancellationToken w)). \<not> throws cb') \<longrightarrow>
         invoked (snd (cancel (fst (onCancelled cb w)))) =
           invoked w @ map snd (onCancelledCallbacks (cancellationToken w)) @ [cb]) \<and>
      invoked (call_unregister (Delete (next_id w)) (snd (cancel (fst (onCancelled cb w))))) =
        invoked (snd (cancel (fst (onCancelled cb w)))) \<and>
      cancelled (cancellationToken
        (call_unregister (Delete (next_id w)) (snd (cancel (fst (onCancelled cb w)))))) \<and>
      deferreds (call_unregister (Delete (next_id w)) (snd (cancel (fst (onCancelled cb w))))) =
        deferreds (snd (cancel (fst (onCancelled cb w)))) \<and>
      listener (call_unregister (Delete (next_id w)) (snd (cancel (fst (onCancelled cb w))))) =
        listener (snd (cancel (fst (onCancelled cb w)))) \<and>
      onCancelledCallbacks (cancellationToken
        (call_unregister (Delete (next_id w)) (snd (cancel (fst (onCancelled cb w)))))) =
        onCancelledCallbacks (cancellationToken w))"
proof (intro conjI impI)
  assume c: "cancelled (cancellationToken w)"
  note reg = onCancelled_cancelled [OF c, of cb]
  show "fst (onCancelled cb w) = snd (call_callback cb w)" by (simp add: reg)
  show "invoked (fst (onCancelled cb w)) = invoked w @ [cb]" by (simp add: reg)
  show "snd (onCancelled cb w) =
        (case fst (call_callback cb w) of None \<Rightarrow> Inr Noop | Some e \<Rightarrow> Inl e)"
    by (simp add: reg)
  show "fst (call_callback cb w) = None \<longleftrightarrow> \<not> throws cb" by (cases cb) simp_all
  show "call_unregister Noop (fst (onCancelled cb w)) = fst (onCancelled cb w)" by simp
next
  assume a: "\<not> cancelled (cancellationToken w) \<and>
    next_id w \<notin> fst ` set (onCancelledCallbacks (cancellationToken w))"
  let ?m = "onCancelledCallbacks (cancellationToken w)"
  let ?w' = "fst (onCancelled cb w)"
  from a have reg: "onCancelled cb w =
      (w\<lparr> cancellationToken := (cancellationToken w)\<lparr> onCancelledCallbacks := ?m @ [(next_id w, cb)] \<rparr>,
          next_id := Suc (next_id w) \<rparr>, Inr (Delete (next_id w)))"
    by (intro onCancelled_active) simp_all
  show "?w' =
      w\<lparr> cancellationToken := (cancellationToken w)\<lparr> onCancelledCallbacks := ?m @ [(next_id w, cb)] \<rparr>,
         next_id := Suc (next_id w) \<rparr>"
    by (simp add: reg)
  show "snd (onCancelled cb w) = Inr (Delete (next_id w))" by (simp add: reg)
  show "invoked (snd (cancel ?w')) = invoked w @ map snd ?m @ [cb]"
    if "\<forall>cb' \<in> snd ` set ?m. \<not> throws cb'"
    using cancel_invoked_last [OF that, of ?w' "next_id w" cb] by (simp add: reg)
  show "invoked (call_unregister (Delete (next_id w)) (snd (cancel ?w'))) =
        invoked (snd (cancel ?w'))" by simp
  show "cancelled (cancellationToken (call_unregister (Delete (next_id w)) (snd (cancel ?w'))))"
    by (simp add: cancel_token)
  show "deferreds (call_unregister (Delete (next_id w)) (snd (cancel ?w'))) =
        deferreds (snd (cancel ?w'))" by simp
  show "listener (call_unregister (Delete (next_id w)) (snd (cancel ?w'))) =
        listener (snd (cancel ?w'))" by simp
  show "onCancelledCallbacks (cancellationToken
        (call_unregister (Delete (next_id w)) (snd (cancel ?w')))) = ?m"
  proof -
    have "Map_delete (next_id w) (?m @ [(next_id w, cb)]) = ?m"
      using a by (simp add: Map_delete_filter filter_id_conv) force
    then show ?thesis by (simp add: reg)
  qed
qed

theorem onCancelled_contract_witness:
  "invoked (fst (onCancelled (External 7) (snd (cancel (init_world :: (unit, unit) world))))) =
     [External 7] \<and>
   snd (onCancelled (External 7) (snd (cancel (init_world :: (unit, unit) world)))) = Inr Noop \<and>
   snd (onCancelled (Throwing 8) (snd (cancel (init_world :: (unit, unit) world)))) =
     Inl (Thrown 8) \<and>
   snd (onCancelled (External 7) (init_world :: (unit, unit) world)) = Inr (Delete 0) \<and>
   invoked (snd (cancel (fst (onCancelled (External 7) (init_world :: (unit, unit) world))))) =
     [External 7] \<and>
   onCancelledCallbacks (cancellationToken
     (call_unregister (Delete 0)
        (snd (cancel (fst (onCancelled (External 7) (init_world :: (unit, unit) world))))))) = []"
  using onCancelled_contract [of "snd (cancel (init_world :: (unit, unit) world))" "External 7"]
        onCancelled_contract [of "snd (cancel (init_world :: (unit, unit) world))" "Throwing 8"]
        onCancelled_contract [of "init_world :: (unit, unit) world" "External 7"]
  by (simp add: init_world_def cancel_def onCancelled_def Let_def forEach_call_Cons)

text \<open>
  Claim C7 as stated fails in its last part: after the callback has fired through
  \<open>cancel()\<close>, its entry is still in the map and the returned function removes it. The
  difference shows at the next \<open>cancel()\<close>, which calls the callback again if the function
  was not called and does not if it was.
\<close>

theorem unregister_after_cancel_counterexample:
  "snd (onCancelled (External 0) (init_world :: (unit, unit) world)) = Inr (Delete 0) \<and>
   onCancelledCallbacks (cancellationToken
     (snd (cancel (fst (onCancelled (External 0) (init_world :: (unit, unit) world)))))) =
     [(0, External 0)] \<and>
   onCancelledCallbacks (cancellationToken
     (call_unregister (Delete 0)
        (snd (cancel (fst (onCancelled (External 0) (init_world :: (unit, unit) world))))))) = [] \<and>
   invoked (snd (cancel (snd (cancel
       (fst (onCancelled (External 0) (init_world :: (unit, unit) world)))))))
     = [External 0, External 0] \<and>
   invoked (snd (cancel
     (call_unregister (Delete 0)
        (snd (cancel (fst (onCancelled (External 0) (init_world :: (unit, unit) world))))))))
     = [External 0]"
  by (simp add: cancel_def onCancelled_def init_world_def Let_def forEach_call_Cons)

section \<open>Draining the buffer\<close>

lemma drain_dropWhile:
  "drain options xs =
     (case dropWhile (\<lambda>s. \<not> matches options s) xs of
        [] \<Rightarrow> (None, [])
      | s # rest \<Rightarrow> (Some s, rest))"
proof (induction xs)
  case Nil
  show ?case by simp
next
  case (Cons x xs)
  show ?case
  proof (cases "matches options x")
    case True
    then show ?thesis
      by (auto simp: matches_def split: option.splits)
  next
    case False
    then have "drain options (x # xs) = drain options xs"
      by (auto simp: matches_def split: option.splits)
    with False Cons show ?thesis by simp
  qed
qed

lemma matches_None [simp]: "matches None s"
  by (simp add: matches_def options_hasPendingWrites_def options_fromCache_def)

lemma call_onChange_None [simp]: "onChange (listener w) = None \<Longrightarrow> call_onChange w = w"
  by (simp add: call_onChange_def)

lemma call_onChange_listener [simp]: "listener (call_onChange w) = listener w"
  by (simp add: call_onChange_def split: option.splits onChange_closure.splits)

lemma call_onChange_token [simp]: "cancellationToken (call_onChange w) = cancellationToken w"
  by (simp add: call_onChange_def split: option.splits onChange_closure.splits)

lemma call_onChange_next_id [simp]: "next_id (call_onChange w) = next_id w"
  by (simp add: call_onChange_def split: option.splits onChange_closure.splits)

lemma observer_next_all_idle:
  "onChange (listener w) = None \<Longrightarrow>
   observer_next_all es w = w\<lparr> listener := (listener w)\<lparr> snapshots := snapshots (listener w) @ es \<rparr> \<rparr>"
proof (induction es arbitrary: w)
  case Nil
  show ?case by simp
next
  case (Cons e es)
  have "onChange (listener (observer_next e w)) = None"
    using Cons.prems by (simp add: observer_next_def)
  from Cons.IH [OF this] Cons.prems show ?case
    by (simp add: observer_next_def)
qed

lemma waitForSnapshot_idle:
  assumes "error (listener w) = None" and "\<not> completed (listener w)"
    and "onChange (listener w) = None"
  shows "waitForSnapshot options w =
    (case drain options (snapshots (listener w)) of
       (Some snapshot, rest) \<Rightarrow>
         (Returned snapshot, w\<lparr> listener := (listener w)\<lparr> snapshots := rest \<rparr> \<rparr>)
     | (None, rest) \<Rightarrow> loop_pass options w)"
  using assms by (simp add: waitForSnapshot_def loop_pass_def split: prod.splits option.splits)

lemma waitForSnapshot_match:
  assumes "error (listener w) = None" and "\<not> completed (listener w)"
    and "onChange (listener w) = None"
    and "dropWhile (\<lambda>s. \<not> matches options s) (snapshots (listener w)) = s # rest"
  shows "waitForSnapshot options w =
    (Returned s, w\<lparr> listener := (listener w)\<lparr> snapshots := rest \<rparr> \<rparr>)"
  using assms by (simp add: waitForSnapshot_idle drain_dropWhile)

lemma registerDeferred_returns:
  "snd (registerDeferred d message w) =
     Inr (if cancelled (cancellationToken w) then Noop else Delete (next_id w))"
  by (simp add: registerDeferred_def onCancelled_def Let_def)

lemma loop_pass_suspend:
  assumes "error (listener w) = None" and "\<not> completed (listener w)"
    and "onChange (listener w) = None"
    and "drain options (snapshots (listener w)) = (None, rest)"
  shows "loop_pass options w =
    (let d = next_id w;
         w2 = w\<lparr> listener := (listener w)\<lparr> snapshots := rest \<rparr>,
                 deferreds := (deferreds w)(d := Pending), next_id := Suc d \<rparr>;
         w3 = fst (onCancelled (RejectDeferred d ''operation cancelled'') w2)
     in (Suspended \<lparr> f_options = options, f_deferred = d,
                      f_unregisterDeferred =
                        (if cancelled (cancellationToken w) then Noop else Delete (Suc d)),
                      f_onChange = ResolveDeferred d \<rparr>,
         w3\<lparr> listener := (listener w3)\<lparr> onChange := Some (ResolveDeferred d) \<rparr> \<rparr>))"
proof -
  let ?w2 = "w\<lparr> listener := (listener w)\<lparr> snapshots := rest \<rparr>,
                 deferreds := (deferreds w)(next_id w := Pending), next_id := Suc (next_id w) \<rparr>"
  have reg: "registerDeferred (next_id w) None ?w2 =
      (fst (onCancelled (RejectDeferred (next_id w) ''operation cancelled'') ?w2),
       Inr (if cancelled (cancellationToken w) then Noop else Delete (Suc (next_id w))))"
    using registerDeferred_returns [of "next_id w" None ?w2]
    by (simp add: prod_eq_iff) (simp add: registerDeferred_def)
  from assms show ?thesis
    by (simp add: loop_pass_def new_Deferred_def Let_def reg)
qed

lemma onCancelled_listener [simp]: "listener (fst (onCancelled cb w)) = listener w"
  by (cases "call_callback cb w"; cases "fst (call_callback cb w)")
     (auto simp: onCancelled_def Let_def dest: arg_cong [where f = "\<lambda>p. listener (snd p)"])

lemma waitForSnapshot_no_match:
  assumes "error (listener w) = None" and "\<not> completed (listener w)"
    and "onChange (listener w) = None"
    and "dropWhile (\<lambda>s. \<not> matches options s) (snapshots (listener w)) = []"
  shows "(\<exists>f. fst (waitForSnapshot options w) = Suspended f \<and> f_options f = options \<and>
            f_onChange f = ResolveDeferred (f_deferred f) \<and>
            onChange (listener (snd (waitForSnapshot options w))) = Some (f_onChange f)) \<and>
         snapshots (listener (snd (waitForSnapshot options w))) = []"
proof -
  have "drain options (snapshots (listener w)) = (None, [])"
    unfolding drain_dropWhile assms(4) by simp
  from loop_pass_suspend [OF assms(1-3) this] assms(3) show ?thesis
    by (simp add: waitForSnapshot_def Let_def)
qed

lemma successive_calls_all:
  assumes "error (listener w) = None" and "\<not> completed (listener w)"
    and "onChange (listener w) = None"
  shows "snapshots (listener w) = buf \<Longrightarrow>
     successive_calls None (length buf) w =
       (map Returned buf, w\<lparr> listener := (listener w)\<lparr> snapshots := [] \<rparr> \<rparr>)"
  using assms
proof (induction buf arbitrary: w)
  case Nil
  then show ?case by simp
next
  case (Cons b buf)
  let ?w1 = "w\<lparr> listener := (listener w)\<lparr> snapshots := buf \<rparr> \<rparr>"
  have call: "waitForSnapshot None w = (Returned b, ?w1)"
    using Cons.prems by (intro waitForSnapshot_match) simp_all
  have "successive_calls None (length buf) ?w1 =
      (map Returned buf, ?w1\<lparr> listener := (listener ?w1)\<lparr> snapshots := [] \<rparr> \<rparr>)"
    using Cons.prems by (intro Cons.IH) simp_all
  with call show ?case by simp
qed

lemma resolve_resolve [simp]: "resolve u (resolve v p) = resolve v p"
  by (cases p) simp_all

lemma call_onChange_deferreds:
  "deferreds (call_onChange w) =
     (case onChange (listener w) of
        None \<Rightarrow> deferreds w
      | Some (ResolveDeferred d) \<Rightarrow> (deferreds w)(d := resolve () (deferreds w d)))"
  by (simp add: call_onChange_def split: option.splits onChange_closure.splits)

lemma call_onChange_invoked [simp]: "invoked (call_onChange w) = invoked w"
  by (simp add: call_onChange_def split: option.splits onChange_closure.splits)

lemma observer_next_all_listener:
  "listener (observer_next_all es w) =
     (listener w)\<lparr> snapshots := snapshots (listener w) @ es \<rparr>"
proof (induction es arbitrary: w)
  case Nil
  show ?case by simp
next
  case (Cons e es)
  show ?case by (simp add: Cons.IH observer_next_def)
qed

lemma observer_next_all_deferreds:
  assumes "onChange (listener w) = Some (ResolveDeferred d)" and "es \<noteq> []"
  shows "deferreds (observer_next_all es w) = (deferreds w)(d := resolve () (deferreds w d))"
  using assms
proof (induction es arbitrary: w)
  case Nil
  then show ?case by simp
next
  case (Cons e es)
  let ?w = "observer_next e w"
  have oc: "onChange (listener ?w) = Some (ResolveDeferred d)"
    using Cons.prems(1) by (simp add: observer_next_def)
  have d: "deferreds ?w = (deferreds w)(d := resolve () (deferreds w d))"
    using Cons.prems(1) by (simp add: observer_next_def call_onChange_deferreds)
  show ?case
  proof (cases "es = []")
    case True
    with d show ?thesis by simp
  next
    case False
    from Cons.IH [OF oc False] d show ?thesis by (simp add: fun_eq_iff)
  qed
qed

lemma wake_finally_error [simp]:
  "error (listener (snd (wake_finally f w))) = error (listener w)"
  by (simp add: wake_finally_def)

lemma wake_finally_completed [simp]:
  "completed (listener (snd (wake_finally f w))) = completed (listener w)"
  by (simp add: wake_finally_def)

lemma wake_finally_snapshots [simp]:
  "snapshots (listener (snd (wake_finally f w))) = snapshots (listener w)"
  by (simp add: wake_finally_def)

lemma resume_Resolved:
  assumes "onChange (listener w) = Some (f_onChange f)" and "deferreds w (f_deferred f) = Resolved u"
  shows "onChange (listener (snd (wake_finally f w))) = None"
    and "resume f w = waitForSnapshot (f_options f) (snd (wake_finally f w))"
  using assms by (simp_all add: resume_def wake_finally_def waitForSnapshot_def)

lemma loop_pass_Returned:
  "fst (loop_pass options w) = Returned s \<Longrightarrow> matches options s"
proof -
  assume a: "fst (loop_pass options w) = Returned s"
  obtain r rest where d: "drain options (snapshots (listener w)) = (r, rest)"
    by (cases "drain options (snapshots (listener w))")
  obtain w3 reg where g: "registerDeferred (next_id w) None
      (w\<lparr> listener := (listener w)\<lparr> snapshots := rest \<rparr>,
          deferreds := (deferreds w)(next_id w := new_Deferred), next_id := Suc (next_id w) \<rparr>) = (w3, reg)"
    by (cases "registerDeferred (next_id w) None
      (w\<lparr> listener := (listener w)\<lparr> snapshots := rest \<rparr>,
          deferreds := (deferreds w)(next_id w := new_Deferred), next_id := Suc (next_id w) \<rparr>)")
  from a d g have "r = Some s"
    by (cases r; cases reg)
       (auto simp: loop_pass_def Let_def split: option.splits if_splits)
  with d have "dropWhile (\<lambda>s. \<not> matches options s) (snapshots (listener w)) = s # rest"
    by (simp add: drain_dropWhile split: list.splits)
  then show ?thesis
    using hd_dropWhile [of "\<lambda>s. \<not> matches options s" "snapshots (listener w)"] by simp
qed

lemma waitForSnapshot_Returned:
  "fst (waitForSnapshot options w) = Returned s \<Longrightarrow> matches options s"
  by (auto simp: waitForSnapshot_def loop_pass_Returned split: if_splits)

lemma resume_Returned:
  assumes "fst (resume f w) = Returned s"
  shows "matches (f_options f) s"
proof (cases "wake_finally f w")
  case (Pair x w')
  with assms show ?thesis
    by (cases "deferreds w (f_deferred f)"; cases x)
       (auto simp: resume_def loop_pass_Returned dest: loop_pass_Returned)
qed

lemma scan_fresh:
  assumes "error (listener w) = None" and "\<not> completed (listener w)"
    and "onChange (listener w) = None" and "snapshots (listener w) = buf"
  shows "case dropWhile (\<lambda>s. \<not> matches options s) buf of
      s # rest \<Rightarrow>
        waitForSnapshot options w =
          (Returned s, w\<lparr> listener := (listener w)\<lparr> snapshots := rest \<rparr> \<rparr>) \<and>
        matches options s \<and>
        buf = takeWhile (\<lambda>s. \<not> matches options s) buf @ s # rest \<and>
        list_all (\<lambda>s. \<not> matches options s) (takeWhile (\<lambda>s. \<not> matches options s) buf)
    | [] \<Rightarrow>
        (\<exists>f. fst (waitForSnapshot options w) = Suspended f \<and> f_options f = options \<and>
           f_onChange f = ResolveDeferred (f_deferred f) \<and>
           onChange (listener (snd (waitForSnapshot options w))) = Some (f_onChange f)) \<and>
        snapshots (listener (snd (waitForSnapshot options w))) = []"
proof (cases "dropWhile (\<lambda>s. \<not> matches options s) buf")
  case Nil
  then have "dropWhile (\<lambda>s. \<not> matches options s) (snapshots (listener w)) = []"
    by (simp add: assms(4))
  from waitForSnapshot_no_match [OF assms(1-3) this] show ?thesis
    unfolding Nil by simp
next
  case (Cons s rest)
  have "matches options s"
    using Cons hd_dropWhile [of "\<lambda>s. \<not> matches options s" buf] by simp
  moreover have "buf = takeWhile (\<lambda>s. \<not> matches options s) buf @ s # rest"
    using Cons takeWhile_dropWhile_id [of "\<lambda>s. \<not> matches options s" buf] by simp
  moreover have "list_all (\<lambda>s. \<not> matches options s) (takeWhile (\<lambda>s. \<not> matches options s) buf)"
    by (auto simp: list_all_iff dest: set_takeWhileD)
  moreover have "waitForSnapshot options w =
        (Returned s, w\<lparr> listener := (listener w)\<lparr> snapshots := rest \<rparr> \<rparr>)"
    using Cons by (intro waitForSnapshot_match assms(1-3)) (simp add: assms(4))
  ultimately show ?thesis using Cons by simp
qed

lemma scan_resumed:
  assumes "error (listener w) = None" and "\<not> completed (listener w)"
    and "onChange (listener w) = Some (f_onChange f)"
    and "deferreds w (f_deferred f) = Resolved ()"
    and "snapshots (listener w) = buf"
  shows "case dropWhile (\<lambda>s. \<not> matches (f_options f) s) buf of
      s # rest \<Rightarrow>
        fst (resume f w) = Returned s \<and>
        snapshots (listener (snd (resume f w))) = rest \<and>
        onChange (listener (snd (resume f w))) = None \<and>
        matches (f_options f) s \<and>
        buf = takeWhile (\<lambda>s. \<not> matches (f_options f) s) buf @ s # rest \<and>
        list_all (\<lambda>s. \<not> matches (f_options f) s)
          (takeWhile (\<lambda>s. \<not> matches (f_options f) s) buf)
    | [] \<Rightarrow>
        (\<exists>f'. fst (resume f w) = Suspended f' \<and> f_options f' = f_options f \<and>
           f_onChange f' = ResolveDeferred (f_deferred f') \<and>
           onChange (listener (snd (resume f w))) = Some (f_onChange f')) \<and>
        snapshots (listener (snd (resume f w))) = []"
proof -
  let ?w' = "snd (wake_finally f w)"
  note r = resume_Resolved [OF assms(3,4)]
  have idle: "error (listener ?w') = None" "\<not> completed (listener ?w')"
    "onChange (listener ?w') = None" "snapshots (listener ?w') = buf"
    using assms(1,2,5) r(1) by simp_all
  note scan = scan_fresh [OF idle, of "f_options f"]
  show ?thesis
  proof (cases "dropWhile (\<lambda>s. \<not> matches (f_options f) s) buf")
    case Nil
    from scan show ?thesis unfolding r(2) Nil by simp
  next
    case (Cons s rest)
    from scan r(1) show ?thesis unfolding r(2) Cons by simp
  qed
qed

text \<open>
  Claim C3. Take a listener with no error recorded and not completed, and let the push
  source deliver the snapshots \<open>es\<close> through \<open>observer.next\<close>; the buffer is then the old
  buffer followed by \<open>es\<close>, in arrival order.

  If no call is suspended, a call of \<open>waitForSnapshot(options)\<close> returns the first
  buffered snapshot that satisfies the options; the snapshots before it, none of which
  satisfies them, are gone from the buffer, and the snapshots after it are the buffer
  that the next call finds. If no buffered snapshot satisfies the options the call
  empties the buffer and is suspended, remembering its options, with its closure in
  \<open>onChange\<close>. Without options, as many calls as there are buffered snapshots return them
  one per call in arrival order and leave the buffer empty.

  If a call is suspended and its promise has not been rejected, then delivering at least
  one snapshot resolves its promise, and the resumed call does with its own options what
  a new call would: it returns the first buffered snapshot that satisfies them, dropping
  those before it and keeping those after it, or empties the buffer and is suspended
  again with the same options.

  In any state whatever, a snapshot returned by a call or by a resumed call satisfies
  the options of that call.
\<close>

theorem waitForSnapshot_fifo:
  assumes "error (listener w) = None" and "\<not> completed (listener w)"
  shows
    "(onChange (listener w) = None \<longrightarrow>
       (let w1 = observer_next_all es w; buf = snapshots (listener w1) in
          buf = snapshots (listener w) @ es \<and>
          (case dropWhile (\<lambda>s. \<not> matches options s) buf of
             s # rest \<Rightarrow>
               waitForSnapshot options w1 =
                 (Returned s, w1\<lparr> listener := (listener w1)\<lparr> snapshots := rest \<rparr> \<rparr>) \<and>
               matches options s \<and>
               buf = takeWhile (\<lambda>s. \<not> matches options s) buf @ s # rest \<and>
               list_all (\<lambda>s. \<not> matches options s) (takeWhile (\<lambda>s. \<not> matches options s) buf)
           | [] \<Rightarrow>
               (\<exists>f. fst (waitForSnapshot options w1) = Suspended f \<and> f_options f = options \<and>
                  f_onChange f = ResolveDeferred (f_deferred f) \<and>
                  onChange (listener (snd (waitForSnapshot options w1))) = Some (f_onChange f)) \<and>
               snapshots (listener (snd (waitForSnapshot options w1))) = []) \<and>
          successive_calls None (length buf) w1 =
            (map Returned buf, w1\<lparr> listener := (listener w1)\<lparr> snapshots := [] \<rparr> \<rparr>))) \<and>
     (onChange (listener w) = Some (f_onChange f) \<and>
      f_onChange f = ResolveDeferred (f_deferred f) \<and>
      (\<forall>e. deferreds w (f_deferred f) \<noteq> Rejected e) \<and> es \<noteq> [] \<longrightarrow>
       (let w1 = observer_next_all es w; buf = snapshots (listener w1) in
          buf = snapshots (listener w) @ es \<and>
          deferreds w1 (f_deferred f) = Resolved () \<and>
          (case dropWhile (\<lambda>s. \<not> matches (f_options f) s) buf of
             s # rest \<Rightarrow>
               fst (resume f w1) = Returned s \<and>
               snapshots (listener (snd (resume f w1))) = rest \<and>
               onChange (listener (snd (resume f w1))) = None \<and>
               matches (f_options f) s \<and>
               buf = takeWhile (\<lambda>s. \<not> matches (f_options f) s) buf @ s # rest \<and>
               list_all (\<lambda>s. \<not> matches (f_options f) s)
                 (takeWhile (\<lambda>s. \<not> matches (f_options f) s) buf)
           | [] \<Rightarrow>
               (\<exists>f'. fst (resume f w1) = Suspended f' \<and> f_options f' = f_options f \<and>
                  f_onChange f' = ResolveDeferred (f_deferred f') \<and>
                  onChange (listener (snd (resume f w1))) = Some (f_onChange f')) \<and>
               snapshots (listener (snd (resume f w1))) = []))) \<and>
     (\<forall>s. fst (waitForSnapshot options' w') = Returned s \<longrightarrow> matches options' s) \<and>
     (\<forall>s. fst (resume f' w') = Returned s \<longrightarrow> matches (f_options f') s)"
proof (intro conjI impI allI)
  define w1 where "w1 = observer_next_all es w"
  define buf where "buf = snapshots (listener w1)"
  have l1: "listener w1 = (listener w)\<lparr> snapshots := snapshots (listener w) @ es \<rparr>"
    unfolding w1_def by (rule observer_next_all_listener)
  have buf: "buf = snapshots (listener w) @ es"
    by (simp add: buf_def l1)
  have live: "error (listener w1) = None" "\<not> completed (listener w1)"
    using assms by (simp_all add: l1)
  show "let w1 = observer_next_all es w; buf = snapshots (listener w1) in
          buf = snapshots (listener w) @ es \<and>
          (case dropWhile (\<lambda>s. \<not> matches options s) buf of
             s # rest \<Rightarrow>
               waitForSnapshot options w1 =
                 (Returned s, w1\<lparr> listener := (listener w1)\<lparr> snapshots := rest \<rparr> \<rparr>) \<and>
               matches options s \<and>
               buf = takeWhile (\<lambda>s. \<not> matches options s) buf @ s # rest \<and>
               list_all (\<lambda>s. \<not> matches options s) (takeWhile (\<lambda>s. \<not> matches options s) buf)
           | [] \<Rightarrow>
               (\<exists>f. fst (waitForSnapshot options w1) = Suspended f \<and> f_options f = options \<and>
                  f_onChange f = ResolveDeferred (f_deferred f) \<and>
                  onChange (listener (snd (waitForSnapshot options w1))) = Some (f_onChange f)) \<and>
               snapshots (listener (snd (waitForSnapshot options w1))) = []) \<and>
          successive_calls None (length buf) w1 =
            (map Returned buf, w1\<lparr> listener := (listener w1)\<lparr> snapshots := [] \<rparr> \<rparr>)"
    if idle: "onChange (listener w) = None"
  proof -
    have idle1: "onChange (listener w1) = None" using idle by (simp add: l1)
    note scan = scan_fresh [OF live idle1 buf_def [symmetric], of options]
    have succ: "successive_calls None (length buf) w1 =
            (map Returned buf, w1\<lparr> listener := (listener w1)\<lparr> snapshots := [] \<rparr> \<rparr>)"
      using live idle1 by (intro successive_calls_all) (simp_all add: buf_def)
    from buf scan succ show ?thesis
      unfolding Let_def w1_def [symmetric] buf_def [symmetric] by blast
  qed
  show "let w1 = observer_next_all es w; buf = snapshots (listener w1) in
          buf = snapshots (listener w) @ es \<and>
          deferreds w1 (f_deferred f) = Resolved () \<and>
          (case dropWhile (\<lambda>s. \<not> matches (f_options f) s) buf of
             s # rest \<Rightarrow>
               fst (resume f w1) = Returned s \<and>
               snapshots (listener (snd (resume f w1))) = rest \<and>
               onChange (listener (snd (resume f w1))) = None \<and>
               matches (f_options f) s \<and>
               buf = takeWhile (\<lambda>s. \<not> matches (f_options f) s) buf @ s # rest \<and>
               list_all (\<lambda>s. \<not> matches (f_options f) s)
                 (takeWhile (\<lambda>s. \<not> matches (f_options f) s) buf)
           | [] \<Rightarrow>
               (\<exists>f'. fst (resume f w1) = Suspended f' \<and> f_options f' = f_options f \<and>
                  f_onChange f' = ResolveDeferred (f_deferred f') \<and>
                  onChange (listener (snd (resume f w1))) = Some (f_onChange f')) \<and>
               snapshots (listener (snd (resume f w1))) = [])"
    if waiting: "onChange (listener w) = Some (f_onChange f) \<and>
      f_onChange f = ResolveDeferred (f_deferred f) \<and>
      (\<forall>e. deferreds w (f_deferred f) \<noteq> Rejected e) \<and> es \<noteq> []"
  proof -
    from waiting have oc: "onChange (listener w) = Some (ResolveDeferred (f_deferred f))"
      and ne: "es \<noteq> []" and nr: "\<forall>e. deferreds w (f_deferred f) \<noteq> Rejected e"
      by simp_all
    have "deferreds w1 (f_deferred f) = resolve () (deferreds w (f_deferred f))"
      unfolding w1_def by (simp add: observer_next_all_deferreds [OF oc ne])
    with nr have res: "deferreds w1 (f_deferred f) = Resolved ()"
      by (cases "deferreds w (f_deferred f)") simp_all
    have oc1: "onChange (listener w1) = Some (f_onChange f)"
      using waiting by (simp add: l1)
    note scan = scan_resumed [OF live oc1 res buf_def [symmetric]]
    from buf res scan show ?thesis
      unfolding Let_def w1_def [symmetric] buf_def [symmetric] by blast
  qed
  show "matches options' s" if "fst (waitForSnapshot options' w') = Returned s" for s
    using that by (rule waitForSnapshot_Returned)
  show "matches (f_options f') s" if "fst (resume f' w') = Returned s" for s
    using that by (rule resume_Returned)
qed

theorem waitForSnapshot_fifo_witness:
  "fst (waitForSnapshot (Some \<lparr> desiredHasPendingWrites = Some True, desiredFromCache = None \<rparr>)
     (observer_next_all
        [example_snapshot False False (1::nat), example_snapshot True False 2,
         example_snapshot False True 3] (init_world :: (nat, unit) world)))
     = Returned (example_snapshot True False 2) \<and>
   snapshots (listener (snd
     (waitForSnapshot (Some \<lparr> desiredHasPendingWrites = Some True, desiredFromCache = None \<rparr>)
       (observer_next_all
          [example_snapshot False False (1::nat), example_snapshot True False 2,
           example_snapshot False True 3] (init_world :: (nat, unit) world)))))
     = [example_snapshot False True 3] \<and>
   fst (successive_calls None 3
     (observer_next_all
        [example_snapshot False False (1::nat), example_snapshot True False 2,
         example_snapshot False True 3] (init_world :: (nat, unit) world)))
     = [Returned (example_snapshot False False 1), Returned (example_snapshot True False 2),
        Returned (example_snapshot False True 3)] \<and>
   fst (waitForSnapshot (Some \<lparr> desiredHasPendingWrites = Some True, desiredFromCache = None \<rparr>)
     (init_world :: (nat, unit) world)) =
     Suspended \<lparr> f_options = Some \<lparr> desiredHasPendingWrites = Some True, desiredFromCache = None \<rparr>,
                 f_deferred = 0, f_unregisterDeferred = Delete 1,
                 f_onChange = ResolveDeferred 0 \<rparr> \<and>
   fst (resume
     \<lparr> f_options = Some \<lparr> desiredHasPendingWrites = Some True, desiredFromCache = None \<rparr>,
       f_deferred = 0, f_unregisterDeferred = Delete 1, f_onChange = ResolveDeferred 0 \<rparr>
     (observer_next_all
        [example_snapshot False False (1::nat), example_snapshot True False 2,
         example_snapshot False True 3]
        (snd (waitForSnapshot
           (Some \<lparr> desiredHasPendingWrites = Some True, desiredFromCache = None \<rparr>)
           (init_world :: (nat, unit) world)))))
     = Returned (example_snapshot True False 2) \<and>
   snapshots (listener (snd (resume
     \<lparr> f_options = Some \<lparr> desiredHasPendingWrites = Some True, desiredFromCache = None \<rparr>,
       f_deferred = 0, f_unregisterDeferred = Delete 1, f_onChange = ResolveDeferred 0 \<rparr>
     (observer_next_all
        [example_snapshot False False (1::nat), example_snapshot True False 2,
         example_snapshot False True 3]
        (snd (waitForSnapshot
           (Some \<lparr> desiredHasPendingWrites = Some True, desiredFromCache = None \<rparr>)
           (init_world :: (nat, unit) world)))))))
     = [example_snapshot False True 3]"
  using waitForSnapshot_fifo [of "init_world :: (nat, unit) world"
      "[example_snapshot False False (1::nat), example_snapshot True False 2,
        example_snapshot False True 3]"
      "Some \<lparr> desiredHasPendingWrites = Some True, desiredFromCache = None \<rparr>"
      "\<lparr> f_options = Some \<lparr> desiredHasPendingWrites = Some True, desiredFromCache = None \<rparr>,
         f_deferred = 0, f_unregisterDeferred = Delete 1, f_onChange = ResolveDeferred 0 \<rparr>"
      None "init_world :: (nat, unit) world"
      "\<lparr> f_options = None, f_deferred = 0, f_unregisterDeferred = Delete 1,
         f_onChange = ResolveDeferred 0 \<rparr>"]
    waitForSnapshot_fifo [of
      "snd (waitForSnapshot
           (Some \<lparr> desiredHasPendingWrites = Some True, desiredFromCache = None \<rparr>)
           (init_world :: (nat, unit) world))"
      "[example_snapshot False False (1::nat), example_snapshot True False 2,
        example_snapshot False True 3]"
      "Some \<lparr> desiredHasPendingWrites = Some True, desiredFromCache = None \<rparr>"
      "\<lparr> f_options = Some \<lparr> desiredHasPendingWrites = Some True, desiredFromCache = None \<rparr>,
         f_deferred = 0, f_unregisterDeferred = Delete 1, f_onChange = ResolveDeferred 0 \<rparr>"
      None "init_world :: (nat, unit) world"
      "\<lparr> f_options = None, f_deferred = 0, f_unregisterDeferred = Delete 1,
         f_onChange = ResolveDeferred 0 \<rparr>"]
  by (simp add: init_world_def Let_def matches_def options_hasPendingWrites_def
      options_fromCache_def example_snapshot_def observer_next_def call_onChange_def
      numeral_3_eq_3 waitForSnapshot_def loop_pass_def registerDeferred_def onCancelled_def
      new_Deferred_def resume_def wake_finally_def)

section \<open>The order of the checks in a pass\<close>

lemma registerDeferred_listener [simp]: "listener (fst (registerDeferred d msg w)) = listener w"
  by (simp add: registerDeferred_def)

lemma loop_pass_error [simp]: "error (listener (snd (loop_pass options w))) = error (listener w)"
  by (simp add: loop_pass_def Let_def split_beta split: option.splits sum.splits)

lemma loop_pass_completed [simp]:
  "completed (listener (snd (loop_pass options w))) = completed (listener w)"
  by (simp add: loop_pass_def Let_def split_beta split: option.splits sum.splits)

lemma waitForSnapshot_error [simp]:
  "error (listener (snd (waitForSnapshot options w))) = error (listener w)"
  by (simp add: waitForSnapshot_def)

lemma resume_error [simp]: "error (listener (snd (resume f w))) = error (listener w)"
proof -
  have "error (listener (snd (loop_pass options (snd (wake_finally f w))))) = error (listener w)"
    for options by simp
  then show ?thesis
    using wake_finally_error [of f w]
    by (cases "wake_finally f w") (auto simp: resume_def split: promise.splits option.splits)
qed

lemma step_error:
  "error (listener (fst (step ev (w, fs)))) =
     (case ev of Err err \<Rightarrow> Some err | _ \<Rightarrow> error (listener w))"
proof (cases ev)
  case (Call options)
  then show ?thesis
    using waitForSnapshot_error [of options w] by (cases "waitForSnapshot options w") simp
next
  case (Wake i)
  then show ?thesis
    using resume_error [of "fs ! i" w] by (cases "resume (fs ! i) w") simp
qed (simp_all add: observer_next_def observer_error_def observer_complete_def clear_def)

lemma exec_error_stays:
  "error (listener (fst s)) \<noteq> None \<Longrightarrow> error (listener (fst (exec evs s))) \<noteq> None"
proof (induction evs arbitrary: s)
  case Nil
  then show ?case by simp
next
  case (Cons ev evs)
  obtain w fs where s: "s = (w, fs)" by (cases s)
  have "error (listener (fst (step ev s))) \<noteq> None"
    using Cons.prems unfolding s step_error by (cases ev) simp_all
  from Cons.IH [OF this] show ?case by simp
qed

lemma waitForSnapshot_order:
  assumes "onChange (listener w) = None"
  shows "case error (listener w) of
      Some err \<Rightarrow> waitForSnapshot options w = (Threw (FirestoreError err), w)
    | None \<Rightarrow>
        if completed (listener w)
        then waitForSnapshot options w = (Threw (Error ''listener is completed''), w)
        else (case dropWhile (\<lambda>s. \<not> matches options s) (snapshots (listener w)) of
                s # rest \<Rightarrow>
                  waitForSnapshot options w =
                    (Returned s, w\<lparr> listener := (listener w)\<lparr> snapshots := rest \<rparr> \<rparr>)
              | [] \<Rightarrow> \<exists>f. fst (waitForSnapshot options w) = Suspended f)"
proof (cases "error (listener w)")
  case (Some err)
  with assms show ?thesis by (simp add: waitForSnapshot_def loop_pass_def)
next
  case None
  show ?thesis
  proof (cases "completed (listener w)")
    case True
    with None assms show ?thesis by (simp add: waitForSnapshot_def loop_pass_def)
  next
    case False
    show ?thesis
    proof (cases "dropWhile (\<lambda>s. \<not> matches options s) (snapshots (listener w))")
      case Nil
      from waitForSnapshot_no_match [OF None False assms Nil]
      have "\<exists>f. fst (waitForSnapshot options w) = Suspended f" by blast
      then show ?thesis
        unfolding Nil using None False by simp
    next
      case (Cons s rest)
      from waitForSnapshot_match [OF None False assms Cons] show ?thesis
        unfolding Cons using None False by simp
    qed
  qed
qed

text \<open>
  Claim C1, as the code has it. Every pass of the loop checks in this order: the recorded
  error first, then the completed flag, and only then the buffer. So a call made while no
  other is suspended fails with the recorded error if there is one, whatever is buffered;
  else fails with "listener is completed" if the listener is completed, whatever is
  buffered; else returns the first buffered snapshot that satisfies the options; else is
  suspended. The pass after a wake-up is the same: once the two \<open>finally\<close> blocks have
  cleared \<open>onChange\<close>, without touching error, flag or buffer, the resumed call goes on
  exactly as a new call on that state would.
\<close>

theorem pass_checks_error_completed_buffer:
  "(onChange (listener w) = None \<longrightarrow>
      (case error (listener w) of
         Some err \<Rightarrow> waitForSnapshot options w = (Threw (FirestoreError err), w)
       | None \<Rightarrow>
           if completed (listener w)
           then waitForSnapshot options w = (Threw (Error ''listener is completed''), w)
           else (case dropWhile (\<lambda>s. \<not> matches options s) (snapshots (listener w)) of
                   s # rest \<Rightarrow>
                     waitForSnapshot options w =
                       (Returned s, w\<lparr> listener := (listener w)\<lparr> snapshots := rest \<rparr> \<rparr>)
                 | [] \<Rightarrow> \<exists>f. fst (waitForSnapshot options w) = Suspended f))) \<and>
   (onChange (listener w) = Some (f_onChange f) \<and> deferreds w (f_deferred f) = Resolved () \<longrightarrow>
      onChange (listener (snd (wake_finally f w))) = None \<and>
      error (listener (snd (wake_finally f w))) = error (listener w) \<and>
      completed (listener (snd (wake_finally f w))) = completed (listener w) \<and>
      snapshots (listener (snd (wake_finally f w))) = snapshots (listener w) \<and>
      resume f w = waitForSnapshot (f_options f) (snd (wake_finally f w)))"
  using waitForSnapshot_order [of w options] resume_Resolved [of w f "()"]
  by simp

theorem pass_checks_error_completed_buffer_witness:
  "waitForSnapshot None
     (observer_error () (observer_next (example_snapshot False False (1::nat)) init_world)) =
     (Threw (FirestoreError ()),
      observer_error () (observer_next (example_snapshot False False (1::nat)) init_world)) \<and>
   resume \<lparr> f_options = None, f_deferred = 0, f_unregisterDeferred = Delete 1,
            f_onChange = ResolveDeferred 0 \<rparr>
     (observer_error () (observer_next (example_snapshot False False (1::nat))
        (snd (waitForSnapshot None init_world)))) =
   waitForSnapshot None
     (snd (wake_finally \<lparr> f_options = None, f_deferred = 0, f_unregisterDeferred = Delete 1,
            f_onChange = ResolveDeferred 0 \<rparr>
        (observer_error () (observer_next (example_snapshot False False (1::nat))
           (snd (waitForSnapshot None init_world))))))"
  using pass_checks_error_completed_buffer
      [of "observer_error () (observer_next (example_snapshot False False (1::nat)) init_world)"
          None]
    pass_checks_error_completed_buffer
      [of "observer_error () (observer_next (example_snapshot False False (1::nat))
             (snd (waitForSnapshot None init_world)))" None
          "\<lparr> f_options = None, f_deferred = 0, f_unregisterDeferred = Delete 1,
            f_onChange = ResolveDeferred 0 \<rparr>"]
  by (simp add: init_world_def observer_error_def observer_next_def call_onChange_def
      waitForSnapshot_def loop_pass_def registerDeferred_def onCancelled_def Let_def
      new_Deferred_def)

text \<open>
  Claim C1 as stated fails: with a snapshot buffered that satisfies the (absent) options
  and an error recorded, the call fails with the error and does not return the snapshot;
  with the listener completed instead, it fails with "listener is completed".
\<close>

theorem buffered_match_loses_to_error_counterexample:
  "snapshots (listener
     (observer_error () (observer_next (example_snapshot False False (1::nat)) init_world))) =
     [example_snapshot False False 1] \<and>
   matches None (example_snapshot False False (1::nat)) \<and>
   fst (waitForSnapshot None
     (observer_error () (observer_next (example_snapshot False False (1::nat)) init_world))) =
     Threw (FirestoreError ()) \<and>
   fst (waitForSnapshot None
     (observer_complete (observer_next (example_snapshot False False (1::nat))
        (init_world :: (nat, unit) world)))) =
     Threw (Error ''listener is completed'')"
  by (simp add: init_world_def observer_error_def observer_complete_def observer_next_def
      call_onChange_def waitForSnapshot_def loop_pass_def)

section \<open>The recorded error\<close>

text \<open>
  Claim C4, as the code has it. \<open>observer.error(E)\<close> stores \<open>E\<close> whatever was stored
  before, so the recorded error is the one delivered last. No other event changes it, and
  once there is one there always is one. A call made while no other is suspended then
  fails with the recorded error at once, before looking at the buffer and leaving the
  state as it was; a suspended call woken by its \<open>onChange\<close> fails with it too.
\<close>

theorem error_last_delivered_stays:
  "error (listener (observer_error err w)) = Some err \<and>
   error (listener (fst (step ev (w, fs)))) =
     (case ev of Err err' \<Rightarrow> Some err' | _ \<Rightarrow> error (listener w)) \<and>
   (error (listener w) \<noteq> None \<longrightarrow> error (listener (fst (exec evs (w, fs)))) \<noteq> None) \<and>
   (onChange (listener w) = None \<and> error (listener w) = Some err \<longrightarrow>
      waitForSnapshot options w = (Threw (FirestoreError err), w)) \<and>
   (onChange (listener w) = Some (f_onChange f) \<and> deferreds w (f_deferred f) = Resolved () \<and>
    error (listener w) = Some err \<longrightarrow>
      fst (resume f w) = Threw (FirestoreError err))"
proof (intro conjI impI)
  show "error (listener (observer_error err w)) = Some err"
    by (simp add: observer_error_def)
  show "error (listener (fst (step ev (w, fs)))) =
     (case ev of Err err' \<Rightarrow> Some err' | _ \<Rightarrow> error (listener w))"
    by (rule step_error)
  show "error (listener (fst (exec evs (w, fs)))) \<noteq> None" if "error (listener w) \<noteq> None"
    using exec_error_stays [of "(w, fs)" evs] that by simp
  show "waitForSnapshot options w = (Threw (FirestoreError err), w)"
    if "onChange (listener w) = None \<and> error (listener w) = Some err"
    using that by (simp add: waitForSnapshot_def loop_pass_def)
  show "fst (resume f w) = Threw (FirestoreError err)"
    if "onChange (listener w) = Some (f_onChange f) \<and> deferreds w (f_deferred f) = Resolved () \<and>
      error (listener w) = Some err"
    using that by (simp add: resume_def wake_finally_def loop_pass_def)
qed

theorem error_last_delivered_stays_witness:
  "waitForSnapshot None
     (observer_error (2::nat) (observer_error 1
        (observer_next (example_snapshot False False (1::nat)) init_world))) =
     (Threw (FirestoreError 2),
      observer_error 2 (observer_error 1
        (observer_next (example_snapshot False False (1::nat)) init_world))) \<and>
   error (listener (fst (exec [Next (example_snapshot False False (1::nat)), Clear, Cancel]
     (observer_error (1::nat) init_world, [])))) \<noteq> None \<and>
   fst (resume \<lparr> f_options = None, f_deferred = 0, f_unregisterDeferred = Delete 1,
            f_onChange = ResolveDeferred 0 \<rparr>
     (observer_error (1::nat) (snd (waitForSnapshot None (init_world :: (nat, nat) world))))) =
     Threw (FirestoreError 1)"
  using error_last_delivered_stays
      [of 2 "observer_error 1 (observer_next (example_snapshot False False (1::nat)) init_world)"
          Clear "[]" "[]" None
          "\<lparr> f_options = None, f_deferred = 0, f_unregisterDeferred = Delete 1,
            f_onChange = ResolveDeferred 0 \<rparr>"]
    error_last_delivered_stays
      [of 1 "init_world :: (nat, nat) world" Clear "[]"
          "[Next (example_snapshot False False (1::nat)), Clear, Cancel]" None
          "\<lparr> f_options = None, f_deferred = 0, f_unregisterDeferred = Delete 1,
            f_onChange = ResolveDeferred 0 \<rparr>"]
    error_last_delivered_stays
      [of 1 "snd (waitForSnapshot None (init_world :: (nat, nat) world))" Clear "[]" "[]" None
          "\<lparr> f_options = None, f_deferred = 0, f_unregisterDeferred = Delete 1,
            f_onChange = ResolveDeferred 0 \<rparr>"]
  by (simp add: init_world_def observer_error_def observer_next_def call_onChange_def
      waitForSnapshot_def loop_pass_def registerDeferred_def onCancelled_def Let_def
      new_Deferred_def resume_def wake_finally_def clear_def cancel_def)

text \<open>
  Claim C4 as stated fails: after \<open>observer.error(1)\<close> and then \<open>observer.error(2)\<close> the
  call fails with the second error, not with the first.
\<close>

theorem second_error_overwrites_counterexample:
  "fst (waitForSnapshot None
     (observer_error (2::nat) (observer_error 1 (init_world :: (nat, nat) world)))) =
     Threw (FirestoreError 2) \<and>
   error (listener (observer_error (2::nat) (observer_error 1 (init_world :: (nat, nat) world))))
     = Some 2"
  by (simp add: init_world_def observer_error_def call_onChange_def waitForSnapshot_def
      loop_pass_def)

section \<open>What every reachable state satisfies\<close>

lemma invariant_idle:
  "invariant (w, []) \<longleftrightarrow>
     (\<forall>k \<in> fst ` set (onCancelledCallbacks (cancellationToken w)). k < next_id w) \<and>
     (\<forall>d e. deferreds w d = Rejected e \<longrightarrow>
        e = CancellationTokenCancelledError ''operation cancelled'') \<and>
     onChange (listener w) = None \<and>
     (\<forall>k d msg. (k, RejectDeferred d msg) \<notin> set (onCancelledCallbacks (cancellationToken w)))"
  by (simp only: invariant_def prod.case list.case)

lemma invariant_waiting:
  "invariant (w, f # fs) \<longleftrightarrow>
     (\<forall>k \<in> fst ` set (onCancelledCallbacks (cancellationToken w)). k < next_id w) \<and>
     (\<forall>d e. deferreds w d = Rejected e \<longrightarrow>
        e = CancellationTokenCancelledError ''operation cancelled'') \<and>
     fs = [] \<and>
     onChange (listener w) = Some (f_onChange f) \<and>
     f_onChange f = ResolveDeferred (f_deferred f) \<and>
     registration_of f (onCancelledCallbacks (cancellationToken w)) \<and>
     (deferreds w (f_deferred f) = Pending \<longrightarrow>
        (\<exists>k. f_unregisterDeferred f = Delete k \<and>
           (k, RejectDeferred (f_deferred f) ''operation cancelled'')
             \<in> set (onCancelledCallbacks (cancellationToken w))))"
  by (simp only: invariant_def prod.case list.case)

lemma set_Map_delete: "set (Map_delete k m) = {p \<in> set m. fst p \<noteq> k}"
  by (simp add: Map_delete_filter)


lemma invariant_init: "invariant (init_world, [])"
  by (simp add: invariant_idle init_world_def)

lemma loop_pass_suspend_cancelled:
  assumes "error (listener w) = None" and "\<not> completed (listener w)"
    and "onChange (listener w) = None"
    and "drain options (snapshots (listener w)) = (None, rest)"
    and "cancelled (cancellationToken w)"
  shows "loop_pass options w =
    (Suspended \<lparr> f_options = options, f_deferred = next_id w,
                 f_unregisterDeferred = Noop, f_onChange = ResolveDeferred (next_id w) \<rparr>,
     w\<lparr> listener := (listener w)\<lparr> snapshots := rest,
                                  onChange := Some (ResolveDeferred (next_id w)) \<rparr>,
        deferreds := (deferreds w)
          (next_id w := Rejected (CancellationTokenCancelledError ''operation cancelled'')),
        next_id := Suc (next_id w),
        invoked := invoked w @ [RejectDeferred (next_id w) ''operation cancelled''] \<rparr>)"
  unfolding loop_pass_suspend [OF assms(1-4)] using assms(5)
  by (simp add: Let_def onCancelled_def)

lemma loop_pass_suspend_active:
  assumes "error (listener w) = None" and "\<not> completed (listener w)"
    and "onChange (listener w) = None"
    and "drain options (snapshots (listener w)) = (None, rest)"
    and "\<not> cancelled (cancellationToken w)"
    and "Suc (next_id w) \<notin> fst ` set (onCancelledCallbacks (cancellationToken w))"
  shows "loop_pass options w =
    (Suspended \<lparr> f_options = options, f_deferred = next_id w,
                 f_unregisterDeferred = Delete (Suc (next_id w)),
                 f_onChange = ResolveDeferred (next_id w) \<rparr>,
     w\<lparr> cancellationToken := (cancellationToken w)
          \<lparr> onCancelledCallbacks := onCancelledCallbacks (cancellationToken w) @
              [(Suc (next_id w), RejectDeferred (next_id w) ''operation cancelled'')] \<rparr>,
        listener := (listener w)\<lparr> snapshots := rest,
                                  onChange := Some (ResolveDeferred (next_id w)) \<rparr>,
        deferreds := (deferreds w)(next_id w := Pending),
        next_id := Suc (Suc (next_id w)) \<rparr>)"
  unfolding loop_pass_suspend [OF assms(1-4)] using assms(5)
  by (simp add: Let_def onCancelled_def Map_set_fresh [OF assms(6)])

lemma invariant_loop_pass:
  assumes "invariant (w, [])"
  shows "invariant (snd (loop_pass options w), suspend (fst (loop_pass options w)) [])"
proof -
  from assms have idle: "onChange (listener w) = None"
    and keys: "\<forall>k \<in> fst ` set (onCancelledCallbacks (cancellationToken w)). k < next_id w"
    and rej: "\<forall>d e. deferreds w d = Rejected e \<longrightarrow>
        e = CancellationTokenCancelledError ''operation cancelled''"
    and none: "\<forall>k d msg. (k, RejectDeferred d msg) \<notin> set (onCancelledCallbacks (cancellationToken w))"
    unfolding invariant_idle by blast+
  show ?thesis
  proof (cases "error (listener w)")
    case (Some err)
    with idle assms show ?thesis by (simp add: loop_pass_def)
  next
    case None
    show ?thesis
    proof (cases "completed (listener w)")
      case True
      with None idle assms show ?thesis by (simp add: loop_pass_def)
    next
      case False
      obtain r rest where d: "drain options (snapshots (listener w)) = (r, rest)"
        by (cases "drain options (snapshots (listener w))")
      show ?thesis
      proof (cases r)
        case (Some s)
        with d None False idle have "loop_pass options w =
            (Returned s, w\<lparr> listener := (listener w)\<lparr> snapshots := rest \<rparr> \<rparr>)"
          by (simp add: loop_pass_def)
        with idle keys rej none show ?thesis by (simp add: invariant_idle)
      next
        case r: None
        show ?thesis
        proof (cases "cancelled (cancellationToken w)")
          case True
          note lp = loop_pass_suspend_cancelled [OF None False idle d [unfolded r] True]
          have "\<forall>k \<in> fst ` set (onCancelledCallbacks (cancellationToken w)). k < Suc (next_id w)"
            using keys by (simp add: less_Suc_eq)
          moreover have "registration_of f (onCancelledCallbacks (cancellationToken w))" for f
            using none by (simp add: registration_of_def)
          ultimately show ?thesis
            unfolding lp using rej by (simp add: invariant_waiting)
        next
          case nc: False
          have fresh: "Suc (next_id w) \<notin> fst ` set (onCancelledCallbacks (cancellationToken w))"
            using keys by auto
          note lp = loop_pass_suspend_active [OF None False idle d [unfolded r] nc fresh]
          have "\<forall>k \<in> fst ` set (onCancelledCallbacks (cancellationToken w)). k < Suc (Suc (next_id w))"
            using keys by (simp add: less_Suc_eq)
          moreover have "registration_of
              \<lparr> f_options = options, f_deferred = next_id w,
                f_unregisterDeferred = Delete (Suc (next_id w)),
                f_onChange = ResolveDeferred (next_id w) \<rparr>
              (onCancelledCallbacks (cancellationToken w) @
                [(Suc (next_id w), RejectDeferred (next_id w) ''operation cancelled'')])"
            using none by (simp add: registration_of_def)
          ultimately show ?thesis
            unfolding lp using rej by (simp add: invariant_waiting)
        qed
      qed
    qed
  qed
qed

lemma invariant_cong:
  assumes "onCancelledCallbacks (cancellationToken w') = onCancelledCallbacks (cancellationToken w)"
    and "next_id w' = next_id w" and "deferreds w' = deferreds w"
    and "onChange (listener w') = onChange (listener w)"
  shows "invariant (w', fs) = invariant (w, fs)"
  by (simp only: invariant_def prod.case assms)

lemma resolve_not_Pending [simp]: "resolve v p \<noteq> Pending"
  by (cases p) simp_all

lemma resolve_Rejected [simp]: "resolve v p = Rejected e \<longleftrightarrow> p = Rejected e"
  by (cases p) simp_all

lemma reject_not_Pending [simp]: "reject x p \<noteq> Pending"
  by (cases p) simp_all

lemma reject_Pending [simp]: "p \<noteq> Pending \<Longrightarrow> reject x p = p"
  by (cases p) simp_all

lemma call_onChange_callbacks [simp]:
  "onCancelledCallbacks (cancellationToken (call_onChange w)) =
     onCancelledCallbacks (cancellationToken w)"
  by simp

lemma invariant_call_onChange:
  assumes "invariant (w, fs)"
  shows "invariant (call_onChange w, fs)"
proof (cases fs)
  case Nil
  with assms have "onChange (listener w) = None" by (simp add: invariant_idle)
  with assms show ?thesis by simp
next
  case (Cons f fs')
  from assms [unfolded Cons invariant_waiting]
  have keys: "\<forall>k \<in> fst ` set (onCancelledCallbacks (cancellationToken w)). k < next_id w"
    and rej: "\<forall>d e. deferreds w d = Rejected e \<longrightarrow>
        e = CancellationTokenCancelledError ''operation cancelled''"
    and one: "fs' = []"
    and oc: "onChange (listener w) = Some (f_onChange f)"
    and cl: "f_onChange f = ResolveDeferred (f_deferred f)"
    and reg: "registration_of f (onCancelledCallbacks (cancellationToken w))"
    by blast+
  have d: "deferreds (call_onChange w) =
      (deferreds w)(f_deferred f := resolve () (deferreds w (f_deferred f)))"
    by (simp add: call_onChange_deferreds oc cl)
  have "\<forall>d e. deferreds (call_onChange w) d = Rejected e \<longrightarrow>
        e = CancellationTokenCancelledError ''operation cancelled''"
    unfolding d using rej by simp
  moreover have "deferreds (call_onChange w) (f_deferred f) \<noteq> Pending"
    unfolding d by simp
  ultimately show ?thesis
    unfolding Cons invariant_waiting using keys one oc cl reg by simp
qed

lemma invariant_listener:
  assumes "invariant (w, fs)" and "onChange l = onChange (listener w)"
  shows "invariant (w\<lparr> listener := l \<rparr>, fs)"
  using assms(1) by (subst invariant_cong [where w = w]) (simp_all add: assms(2))

lemma forEach_call_deferreds:
  assumes "\<forall>k d' msg. (k, RejectDeferred d' msg) \<in> set m \<longrightarrow> msg = M"
  shows "deferreds (snd (forEach_call m w)) d =
     (if deferreds w d = Pending \<and>
         (\<exists>k. (k, RejectDeferred d M) \<in> set (takeWhile (\<lambda>p. \<not> throws (snd p)) m))
      then Rejected (CancellationTokenCancelledError M) else deferreds w d)"
  using assms
proof (induction m arbitrary: w)
  case Nil
  show ?case by simp
next
  case (Cons p m)
  obtain k cb where p: "p = (k, cb)" by (cases p)
  from Cons.prems have rest: "\<forall>k d' msg. (k, RejectDeferred d' msg) \<in> set m \<longrightarrow> msg = M"
    by auto
  note IH = Cons.IH [OF rest]
  show ?case
  proof (cases cb)
    case (Throwing n)
    then show ?thesis by (simp add: p forEach_call_Cons)
  next
    case (External n)
    then show ?thesis by (simp add: p forEach_call_Cons IH)
  next
    case (RejectDeferred d' msg)
    with Cons.prems have msg: "msg = M" by (auto simp: p)
    show ?thesis
    proof (cases "d' = d")
      case True
      show ?thesis
        by (cases "deferreds w d") (auto simp: p forEach_call_Cons IH RejectDeferred msg True)
    next
      case False
      then show ?thesis
        by (auto simp: p forEach_call_Cons IH RejectDeferred msg)
    qed
  qed
qed

lemma cancel_deferreds:
  assumes "\<forall>k d' msg. (k, RejectDeferred d' msg) \<in> set (onCancelledCallbacks (cancellationToken w))
      \<longrightarrow> msg = M"
  shows "deferreds (snd (cancel w)) d =
     (if deferreds w d = Pending \<and>
         (\<exists>k. (k, RejectDeferred d M) \<in>
            set (takeWhile (\<lambda>p. \<not> throws (snd p)) (onCancelledCallbacks (cancellationToken w))))
      then Rejected (CancellationTokenCancelledError M) else deferreds w d)"
  unfolding cancel_def Let_def
  by (subst forEach_call_deferreds [where M = M]) (use assms in simp_all)

lemma invariant_messages:
  assumes "invariant (w, fs)"
  shows "\<forall>k d' msg. (k, RejectDeferred d' msg) \<in> set (onCancelledCallbacks (cancellationToken w))
      \<longrightarrow> msg = ''operation cancelled''"
proof (cases fs)
  case Nil
  with assms show ?thesis by (simp add: invariant_idle)
next
  case (Cons f fs')
  with assms have "registration_of f (onCancelledCallbacks (cancellationToken w))"
    by (simp only: invariant_waiting)
  then show ?thesis unfolding registration_of_def by blast
qed

lemma invariant_cancel:
  assumes "invariant (w, fs)"
  shows "invariant (snd (cancel w), fs)"
proof -
  note d = cancel_deferreds [OF invariant_messages [OF assms]]
  show ?thesis
  proof (cases fs)
    case Nil
    with assms show ?thesis
      by (simp add: invariant_idle d)
  next
    case (Cons f fs')
    with assms show ?thesis
      by (simp add: invariant_waiting d)
  qed
qed

lemma invariant_onCancelled_application:
  assumes "invariant (w, fs)" and "\<forall>d msg. cb \<noteq> RejectDeferred d msg"
  shows "invariant (fst (onCancelled cb w), fs)"
proof (cases "cancelled (cancellationToken w)")
  case True
  from assms(2) have "fst (onCancelled cb w) = w\<lparr> invoked := invoked w @ [cb] \<rparr>"
    using True by (cases cb) (simp_all add: onCancelled_def)
  moreover have "invariant (w\<lparr> invoked := invoked w @ [cb] \<rparr>, fs) = invariant (w, fs)"
    by (rule invariant_cong) simp_all
  ultimately show ?thesis using assms(1) by simp
next
  case False
  let ?m = "onCancelledCallbacks (cancellationToken w)"
  have keys: "\<forall>k \<in> fst ` set ?m. k < next_id w"
  proof (cases fs)
    case Nil
    from assms(1) [unfolded Nil invariant_idle] show ?thesis by blast
  next
    case (Cons f fs')
    from assms(1) [unfolded Cons invariant_waiting] show ?thesis by blast
  qed
  then have fresh: "next_id w \<notin> fst ` set ?m" by auto
  have reg: "fst (onCancelled cb w) =
      w\<lparr> cancellationToken := (cancellationToken w)
           \<lparr> onCancelledCallbacks := ?m @ [(next_id w, cb)] \<rparr>,
         next_id := Suc (next_id w) \<rparr>"
    using False by (simp add: onCancelled_def Let_def Map_set_fresh [OF fresh])
  have keys': "\<forall>k \<in> fst ` set (?m @ [(next_id w, cb)]). k < Suc (next_id w)"
    using keys by (auto simp: less_Suc_eq)
  have cb: "RejectDeferred d msg \<noteq> cb" for d msg
    using assms(2) by metis
  show ?thesis
  proof (cases fs)
    case Nil
    with assms keys' show ?thesis
      unfolding reg by (simp add: invariant_idle cb)
  next
    case (Cons f fs')
    from assms(1) [unfolded Cons invariant_waiting]
    have r: "registration_of f ?m" by blast
    have "registration_of f (?m @ [(next_id w, cb)])"
      using r by (simp add: registration_of_def cb)
    with assms keys' show ?thesis
      unfolding reg Cons by (simp add: invariant_waiting) blast
  qed
qed

lemma invariant_wake_finally:
  assumes "invariant (w, [f])"
  shows "fst (wake_finally f w) = None"
    and "snd (wake_finally f w) =
      call_unregister (f_unregisterDeferred f) (w\<lparr> listener := (listener w)\<lparr> onChange := None \<rparr> \<rparr>)"
    and "invariant (snd (wake_finally f w), [])"
proof -
  let ?m = "onCancelledCallbacks (cancellationToken w)"
  from assms [unfolded invariant_waiting]
  have keys: "\<forall>k \<in> fst ` set ?m. k < next_id w"
    and rej: "\<forall>d e. deferreds w d = Rejected e \<longrightarrow>
        e = CancellationTokenCancelledError ''operation cancelled''"
    and oc: "onChange (listener w) = Some (f_onChange f)"
    and reg: "registration_of f ?m"
    by blast+
  let ?w' = "call_unregister (f_unregisterDeferred f)
      (w\<lparr> listener := (listener w)\<lparr> onChange := None \<rparr> \<rparr>)"
  show "fst (wake_finally f w) = None" using oc by (simp add: wake_finally_def)
  show w': "snd (wake_finally f w) = ?w'" using oc by (simp add: wake_finally_def)
  have sub: "set (onCancelledCallbacks (cancellationToken ?w')) \<subseteq> set ?m"
    by (cases "f_unregisterDeferred f") (auto simp: set_Map_delete)
  have gone: "(k, RejectDeferred d msg) \<notin> set (onCancelledCallbacks (cancellationToken ?w'))"
    for k d msg
  proof
    assume a: "(k, RejectDeferred d msg) \<in> set (onCancelledCallbacks (cancellationToken ?w'))"
    with sub have "(k, RejectDeferred d msg) \<in> set ?m" by blast
    with reg have u: "f_unregisterDeferred f = Delete k" unfolding registration_of_def by blast
    from a show False unfolding u by (simp add: set_Map_delete)
  qed
  have "\<forall>k \<in> fst ` set (onCancelledCallbacks (cancellationToken ?w')). k < next_id ?w'"
    using keys sub by auto
  then show "invariant (snd (wake_finally f w), [])"
    unfolding w' invariant_idle using rej gone by simp
qed

lemma resume_settled:
  assumes "invariant (w, [f])"
  shows "resume f w =
    (case deferreds w (f_deferred f) of
       Pending \<Rightarrow> (Suspended f, w)
     | Rejected e \<Rightarrow> (Threw e, snd (wake_finally f w))
     | Resolved u \<Rightarrow> loop_pass (f_options f) (snd (wake_finally f w)))"
  using invariant_wake_finally(1) [OF assms]
  by (cases "wake_finally f w") (simp add: resume_def split: promise.splits)

lemma invariant_resume:
  assumes "invariant (w, [f])" and "deferreds w (f_deferred f) \<noteq> Pending"
  shows "invariant (snd (resume f w), suspend (fst (resume f w)) [])"
proof (cases "deferreds w (f_deferred f)")
  case Pending
  with assms(2) show ?thesis by simp
next
  case (Resolved u)
  with invariant_loop_pass [OF invariant_wake_finally(3) [OF assms(1)], of "f_options f"]
  show ?thesis by (simp add: resume_settled [OF assms(1)])
next
  case (Rejected e)
  with invariant_wake_finally(3) [OF assms(1)]
  show ?thesis by (simp add: resume_settled [OF assms(1)])
qed

lemma invariant_waitForSnapshot:
  assumes "invariant (w, fs)"
  shows "invariant (snd (waitForSnapshot options w), suspend (fst (waitForSnapshot options w)) fs)"
proof (cases fs)
  case Nil
  with assms have "onChange (listener w) = None" by (simp add: invariant_idle)
  with invariant_loop_pass [of w options] assms Nil show ?thesis
    by (simp add: waitForSnapshot_def)
next
  case (Cons f fs')
  with assms have "onChange (listener w) = Some (f_onChange f)"
    by (simp only: invariant_waiting)
  with assms show ?thesis by (simp add: waitForSnapshot_def)
qed

lemma invariant_step:
  assumes "invariant (w, fs)"
  shows "invariant (step ev (w, fs))"
proof (cases ev)
  case (Next snapshot)
  with assms show ?thesis
    by (simp add: observer_next_def invariant_call_onChange invariant_listener)
next
  case (Err err)
  with assms show ?thesis
    by (simp add: observer_error_def invariant_call_onChange invariant_listener)
next
  case Complete
  with assms show ?thesis
    by (simp add: observer_complete_def invariant_call_onChange invariant_listener)
next
  case Clear
  with assms show ?thesis by (simp add: clear_def invariant_listener)
next
  case Cancel
  with assms show ?thesis by (simp add: invariant_cancel)
next
  case (OnCancelled n)
  with assms show ?thesis by (simp add: invariant_onCancelled_application)
next
  case (OnCancelledThrowing n)
  with assms show ?thesis by (simp add: invariant_onCancelled_application)
next
  case (Call options)
  with invariant_waitForSnapshot [OF assms, of options] show ?thesis
    by (cases "waitForSnapshot options w") simp
next
  case (Wake i)
  show ?thesis
  proof (cases "i < length fs \<and> deferreds w (f_deferred (fs ! i)) \<noteq> Pending")
    case False
    with assms Wake show ?thesis by auto
  next
    case True
    then obtain f fs' where fs: "fs = f # fs'" by (cases fs) auto
    with assms have "fs' = []" by (simp only: invariant_waiting)
    with fs True have i: "i = 0" and fs1: "fs = [f]" by simp_all
    from invariant_resume [of w f] assms True show ?thesis
      unfolding Wake fs1 i by (cases "resume f w") simp
  qed
qed

lemma invariant_exec: "invariant s \<Longrightarrow> invariant (exec evs s)"
proof (induction evs arbitrary: s)
  case Nil
  then show ?case by simp
next
  case (Cons ev evs)
  obtain w fs where s: "s = (w, fs)" by (cases s)
  from Cons.prems have "invariant (step ev s)" unfolding s by (rule invariant_step)
  then show ?case by (simp add: Cons.IH)
qed

lemma invariant_reachable: "invariant (exec evs (init_world, []))"
  by (rule invariant_exec [OF invariant_init])

section \<open>One call at a time, cancellation, and the illegal states\<close>

lemma loop_pass_Threw_Error:
  assumes "fst (loop_pass options w) = Threw (Error msg)"
  shows "(msg = ''illegal state: this.onChange !== null'' \<and> onChange (listener w) \<noteq> None) \<or>
         msg = ''listener is completed''"
proof -
  have "snd (registerDeferred d None w') \<noteq> Inl e" for d e and w' :: "('a, 'b) world"
    by (simp add: registerDeferred_returns)
  with assms show ?thesis
    by (auto simp: loop_pass_def Let_def split_beta split: option.splits if_splits sum.splits)
qed

lemma waitForSnapshot_idle_legal:
  assumes "onChange (listener w) = None"
  shows "fst (waitForSnapshot options w) \<noteq>
           Threw (Error ''only one call to waitForSnapshotFromServer() at a time'')"
    and "fst (waitForSnapshot options w) \<noteq> Threw (Error ''illegal state: this.onChange !== null'')"
    and "fst (waitForSnapshot options w) \<noteq> Threw (Error ''illegal state: this.onChange !== onChange'')"
  using assms loop_pass_Threw_Error [of options w]
  by (auto simp: waitForSnapshot_def)

lemma invariant_one_waiter:
  assumes "invariant (w, fs)" and "f \<in> set fs"
  shows "fs = [f]"
proof -
  from assms(2) obtain g fs' where fs: "fs = g # fs'" by (cases fs) auto
  from assms(1) [unfolded fs invariant_waiting] have "fs' = []" by blast
  with fs assms(2) show ?thesis by simp
qed

lemma teardown:
  assumes "invariant (w, [f])"
  shows "fst (wake_finally f w) = None"
    and "onChange (listener (snd (wake_finally f w))) = None"
    and "\<forall>k d msg. (k, RejectDeferred d msg) \<notin>
           set (onCancelledCallbacks (cancellationToken (snd (wake_finally f w))))"
proof -
  note i = invariant_wake_finally(3) [OF assms, unfolded invariant_idle]
  show "fst (wake_finally f w) = None" by (rule invariant_wake_finally(1) [OF assms])
  from i show idle: "onChange (listener (snd (wake_finally f w))) = None" by blast
  from i show "\<forall>k d msg. (k, RejectDeferred d msg) \<notin>
           set (onCancelledCallbacks (cancellationToken (snd (wake_finally f w))))" by blast
qed

lemma teardown_legal:
  assumes "invariant (w, [f])"
  shows "fst (waitForSnapshot options (snd (wake_finally f w))) \<noteq>
           Threw (Error ''only one call to waitForSnapshotFromServer() at a time'')"
  using teardown(2) [OF assms] by (rule waitForSnapshot_idle_legal(1))

lemma cancel_rejects_pending:
  assumes "invariant (w, [f])" and "deferreds w (f_deferred f) = Pending"
    and "\<forall>cb \<in> snd ` set (onCancelledCallbacks (cancellationToken w)). \<not> throws cb"
  shows "deferreds (snd (cancel w)) (f_deferred f) =
           Rejected (CancellationTokenCancelledError ''operation cancelled'')"
proof -
  from assms(1) [unfolded invariant_waiting] assms(2)
  have "\<exists>k. (k, RejectDeferred (f_deferred f) ''operation cancelled'')
      \<in> set (onCancelledCallbacks (cancellationToken w))" by blast
  moreover have all: "takeWhile (\<lambda>p. \<not> throws (snd p)) (onCancelledCallbacks (cancellationToken w)) =
      onCancelledCallbacks (cancellationToken w)"
    using assms(3) by (simp add: takeWhile_eq_all_conv)
  ultimately show ?thesis
    unfolding cancel_deferreds [OF invariant_messages [OF assms(1)]] all
    using assms(2) by simp
qed

text \<open>
  Claim C6. In every state the system can reach with a call of \<open>waitForSnapshot\<close>
  suspended, a second call fails at once with the error "only one call to
  waitForSnapshotFromServer() at a time" and changes nothing: it is not queued, and the
  suspended call stays the only one.
\<close>

theorem second_call_fails_at_once:
  assumes "exec evs (init_world, []) = (w, fs)" and "fs \<noteq> []"
  shows "waitForSnapshot options w =
           (Threw (Error ''only one call to waitForSnapshotFromServer() at a time''), w) \<and>
         step (Call options) (w, fs) = (w, fs)"
proof -
  have inv: "invariant (w, fs)"
    using invariant_reachable [of evs] assms(1) by simp
  from assms(2) obtain f fs' where fs: "fs = f # fs'" by (cases fs) auto
  from inv [unfolded fs invariant_waiting] have "onChange (listener w) = Some (f_onChange f)"
    by blast
  then show ?thesis by (simp add: waitForSnapshot_def)
qed

theorem second_call_fails_at_once_witness:
  "snd (exec [Call None] (init_world :: (nat, nat) world, [])) =
     [\<lparr> f_options = None, f_deferred = 0, f_unregisterDeferred = Delete 1,
        f_onChange = ResolveDeferred 0 \<rparr>] \<and>
   fst (waitForSnapshot (Some \<lparr> desiredHasPendingWrites = Some False, desiredFromCache = None \<rparr>)
     (fst (exec [Call None] (init_world :: (nat, nat) world, [])))) =
     Threw (Error ''only one call to waitForSnapshotFromServer() at a time'')"
  using second_call_fails_at_once [of "[Call None]"
      "fst (exec [Call None] (init_world :: (nat, nat) world, []))"
      "snd (exec [Call None] (init_world :: (nat, nat) world, []))"
      "Some \<lparr> desiredHasPendingWrites = Some False, desiredFromCache = None \<rparr>"]
  by (simp add: init_world_def waitForSnapshot_def loop_pass_def registerDeferred_def
      onCancelled_def Let_def new_Deferred_def)

text \<open>
  Claim C10. The two illegal-state errors are never thrown, whatever the events and even
  if \<open>waitForSnapshot\<close> is called while another call is suspended, since such a call is
  turned away by the first test of the function before it touches \<open>onChange\<close>: the
  claim's precondition is not needed. In every reachable state a call does not throw
  "illegal state: this.onChange !== null"; with no call suspended \<open>onChange\<close> is null;
  and for a suspended call \<open>onChange\<close> is still the closure that call installed, the
  \<open>finally\<close> blocks throw nothing and leave \<open>onChange\<close> null for the next pass, and
  resuming it throws neither of the two errors.
\<close>

theorem illegal_states_unreachable:
  assumes "exec evs (init_world, []) = (w, fs)"
  shows "fst (waitForSnapshot options w) \<noteq> Threw (Error ''illegal state: this.onChange !== null'') \<and>
    (fs = [] \<longrightarrow> onChange (listener w) = None) \<and>
    (\<forall>f \<in> set fs.
        onChange (listener w) = Some (f_onChange f) \<and>
        fst (wake_finally f w) = None \<and>
        onChange (listener (snd (wake_finally f w))) = None \<and>
        fst (resume f w) \<noteq> Threw (Error ''illegal state: this.onChange !== onChange'') \<and>
        fst (resume f w) \<noteq> Threw (Error ''illegal state: this.onChange !== null''))"
proof (intro conjI impI ballI)
  have inv: "invariant (w, fs)"
    using invariant_reachable [of evs] assms(1) by simp
  show "fst (waitForSnapshot options w) \<noteq> Threw (Error ''illegal state: this.onChange !== null'')"
  proof (cases "onChange (listener w)")
    case None
    then show ?thesis by (rule waitForSnapshot_idle_legal(2))
  next
    case (Some c)
    then show ?thesis by (simp add: waitForSnapshot_def)
  qed
  show "onChange (listener w) = None" if "fs = []"
    using inv that by (simp add: invariant_idle)
  fix f assume f: "f \<in> set fs"
  from invariant_one_waiter [OF inv f] inv have inv1: "invariant (w, [f])" by simp
  from inv1 [unfolded invariant_waiting]
  show "onChange (listener w) = Some (f_onChange f)" by blast
  show "fst (wake_finally f w) = None" by (rule teardown(1) [OF inv1])
  show idle: "onChange (listener (snd (wake_finally f w))) = None" by (rule teardown(2) [OF inv1])
  from inv1 [unfolded invariant_waiting]
  have rej: "deferreds w (f_deferred f) = Rejected e \<Longrightarrow>
      e = CancellationTokenCancelledError ''operation cancelled''" for e by blast
  show "fst (resume f w) \<noteq> Threw (Error ''illegal state: this.onChange !== onChange'')"
    using loop_pass_Threw_Error [of "f_options f" "snd (wake_finally f w)"] rej
    by (auto simp: resume_settled [OF inv1] split: promise.splits)
  show "fst (resume f w) \<noteq> Threw (Error ''illegal state: this.onChange !== null'')"
    using loop_pass_Threw_Error [of "f_options f" "snd (wake_finally f w)"] rej idle
    by (auto simp: resume_settled [OF inv1] split: promise.splits)
qed


theorem illegal_states_unreachable_witness:
  "fst (waitForSnapshot None
     (fst (exec [Call None, Next (example_snapshot False False 1)]
        (init_world :: (nat, nat) world, [])))) \<noteq>
     Threw (Error ''illegal state: this.onChange !== null'') \<and>
   onChange (listener (fst (exec [Call None, Next (example_snapshot False False 1)]
        (init_world :: (nat, nat) world, [])))) = Some (ResolveDeferred 0) \<and>
   fst (wake_finally
     \<lparr> f_options = None, f_deferred = 0, f_unregisterDeferred = Delete 1,
       f_onChange = ResolveDeferred 0 \<rparr>
     (fst (exec [Call None, Next (example_snapshot False False 1)]
        (init_world :: (nat, nat) world, [])))) = None \<and>
   fst (resume
     \<lparr> f_options = None, f_deferred = 0, f_unregisterDeferred = Delete 1,
       f_onChange = ResolveDeferred 0 \<rparr>
     (fst (exec [Call None, Next (example_snapshot False False 1)]
        (init_world :: (nat, nat) world, [])))) \<noteq>
     Threw (Error ''illegal state: this.onChange !== onChange'')"
  using illegal_states_unreachable [of "[Call None, Next (example_snapshot False False 1)]"
      "fst (exec [Call None, Next (example_snapshot False False 1)]
         (init_world :: (nat, nat) world, []))"
      "snd (exec [Call None, Next (example_snapshot False False 1)]
         (init_world :: (nat, nat) world, []))"
      None]
  by (simp add: init_world_def waitForSnapshot_def loop_pass_def registerDeferred_def
      onCancelled_def Let_def new_Deferred_def observer_next_def call_onChange_def)

text \<open>
  What the code does for a suspended call in every reachable state. Whenever the call
  leaves the \<open>await\<close>, the \<open>finally\<close> blocks throw nothing, leave \<open>onChange\<close> null and
  the callback map without any rejecting closure, and in the state they leave a new call
  is not turned away as a second call; what the resumed call does next is to rethrow the
  rejection or to go round the loop again from that state. A promise that is rejected
  carries the cancellation error. And if the promise is still pending and none of the
  registered callbacks throws, then \<open>cancel()\<close> returns, rejects the promise with
  \<open>CancellationTokenCancelledError\<close>("operation cancelled"), the resumed call throws that
  error, and it leaves \<open>onChange\<close> null, no rejecting closure registered, and the next
  call legal.
\<close>

lemma cancel_rejects_when_no_callback_throws:
  assumes "exec evs (init_world, []) = (w, fs)" and "f \<in> set fs"
  shows
    "fst (wake_finally f w) = None \<and>
     onChange (listener (snd (wake_finally f w))) = None \<and>
     (\<forall>k d msg. (k, RejectDeferred d msg) \<notin>
        set (onCancelledCallbacks (cancellationToken (snd (wake_finally f w))))) \<and>
     fst (waitForSnapshot options (snd (wake_finally f w))) \<noteq>
        Threw (Error ''only one call to waitForSnapshotFromServer() at a time'') \<and>
     resume f w =
       (case deferreds w (f_deferred f) of
          Pending \<Rightarrow> (Suspended f, w)
        | Rejected e \<Rightarrow> (Threw e, snd (wake_finally f w))
        | Resolved u \<Rightarrow> loop_pass (f_options f) (snd (wake_finally f w))) \<and>
     (\<forall>e. deferreds w (f_deferred f) = Rejected e \<longrightarrow>
        e = CancellationTokenCancelledError ''operation cancelled'') \<and>
     (deferreds w (f_deferred f) = Pending \<and>
      (\<forall>cb \<in> snd ` set (onCancelledCallbacks (cancellationToken w)). \<not> throws cb) \<longrightarrow>
        fst (cancel w) = None \<and>
        deferreds (snd (cancel w)) (f_deferred f) =
          Rejected (CancellationTokenCancelledError ''operation cancelled'') \<and>
        fst (resume f (snd (cancel w))) =
          Threw (CancellationTokenCancelledError ''operation cancelled'') \<and>
        onChange (listener (snd (resume f (snd (cancel w))))) = None \<and>
        (\<forall>k d msg. (k, RejectDeferred d msg) \<notin>
           set (onCancelledCallbacks (cancellationToken (snd (resume f (snd (cancel w))))))) \<and>
        fst (waitForSnapshot options (snd (resume f (snd (cancel w))))) \<noteq>
          Threw (Error ''only one call to waitForSnapshotFromServer() at a time''))"
proof -
  have inv: "invariant (w, fs)"
    using invariant_reachable [of evs] assms(1) by simp
  from invariant_one_waiter [OF inv assms(2)] inv have inv1: "invariant (w, [f])" by simp
  have invc: "invariant (snd (cancel w), [f])" by (rule invariant_cancel [OF inv1])
  note t = teardown [OF inv1] teardown_legal [OF inv1, of options]
  note tc = teardown [OF invc] teardown_legal [OF invc, of options]
  have rej: "\<forall>e. deferreds w (f_deferred f) = Rejected e \<longrightarrow>
        e = CancellationTokenCancelledError ''operation cancelled''"
    using inv1 [unfolded invariant_waiting] by blast
  have cancelled: "fst (cancel w) = None \<and>
        deferreds (snd (cancel w)) (f_deferred f) =
          Rejected (CancellationTokenCancelledError ''operation cancelled'') \<and>
        fst (resume f (snd (cancel w))) =
          Threw (CancellationTokenCancelledError ''operation cancelled'') \<and>
        onChange (listener (snd (resume f (snd (cancel w))))) = None \<and>
        (\<forall>k d msg. (k, RejectDeferred d msg) \<notin>
           set (onCancelledCallbacks (cancellationToken (snd (resume f (snd (cancel w))))))) \<and>
        fst (waitForSnapshot options (snd (resume f (snd (cancel w))))) \<noteq>
          Threw (Error ''only one call to waitForSnapshotFromServer() at a time'')"
    if p: "deferreds w (f_deferred f) = Pending \<and>
      (\<forall>cb \<in> snd ` set (onCancelledCallbacks (cancellationToken w)). \<not> throws cb)"
  proof -
    from p have nt: "\<forall>cb \<in> snd ` set (onCancelledCallbacks (cancellationToken w)). \<not> throws cb"
      and pend: "deferreds w (f_deferred f) = Pending" by blast+
    note r = cancel_rejects_pending [OF inv1 pend nt]
    have res: "resume f (snd (cancel w)) =
        (Threw (CancellationTokenCancelledError ''operation cancelled''),
         snd (wake_finally f (snd (cancel w))))"
      by (simp add: resume_settled [OF invc] r)
    from nt have "fst (cancel w) = None" by (simp add: cancel_returns)
    then show ?thesis
      unfolding res using r tc by simp
  qed
  from t rej cancelled resume_settled [OF inv1] show ?thesis by blast
qed

text \<open>
  Claim C5: a call suspended waiting for events is rejected with the cancellation error
  when the token is cancelled, and leaving the \<open>await\<close> restores the state in which no
  call is pending. The second half holds in every reachable state, as shown above. The
  first half holds when every callback in the map returns, and fails when a callback
  registered before the call throws: \<open>forEach\<close> stops there, so the closure that would
  reject the call's promise is never called. Here the application registers a throwing
  callback (as run_the_test.ts registers \<open>unsubscribe\<close> before it calls
  \<open>waitForSnapshot\<close>), a call is suspended, and the source is cancelled: \<open>cancel()\<close>
  throws, the token is cancelled, the promise is still pending, and resuming leaves the
  call suspended and the state unchanged. With a callback that returns in the same place
  the call is rejected with the cancellation error.
\<close>

theorem cancel_aborted_leaves_call_suspended:
  "snd (exec [OnCancelledThrowing 7, Call None] (init_world :: (nat, nat) world, [])) =
     [\<lparr> f_options = None, f_deferred = 1, f_unregisterDeferred = Delete 2,
        f_onChange = ResolveDeferred 1 \<rparr>] \<and>
   onCancelledCallbacks (cancellationToken
     (fst (exec [OnCancelledThrowing 7, Call None] (init_world :: (nat, nat) world, [])))) =
     [(0, Throwing 7), (2, RejectDeferred 1 ''operation cancelled'')] \<and>
   deferreds (fst (exec [OnCancelledThrowing 7, Call None] (init_world :: (nat, nat) world, []))) 1
     = Pending \<and>
   fst (cancel (fst (exec [OnCancelledThrowing 7, Call None]
     (init_world :: (nat, nat) world, [])))) = Some (Thrown 7) \<and>
   cancelled (cancellationToken
     (fst (exec [OnCancelledThrowing 7, Call None, Cancel] (init_world :: (nat, nat) world, [])))) \<and>
   deferreds
     (fst (exec [OnCancelledThrowing 7, Call None, Cancel] (init_world :: (nat, nat) world, []))) 1
     = Pending \<and>
   fst (resume \<lparr> f_options = None, f_deferred = 1, f_unregisterDeferred = Delete 2,
                 f_onChange = ResolveDeferred 1 \<rparr>
     (fst (exec [OnCancelledThrowing 7, Call None, Cancel] (init_world :: (nat, nat) world, []))))
     = Suspended \<lparr> f_options = None, f_deferred = 1, f_unregisterDeferred = Delete 2,
                   f_onChange = ResolveDeferred 1 \<rparr> \<and>
   exec [OnCancelledThrowing 7, Call None, Cancel, Wake 0] (init_world :: (nat, nat) world, []) =
     exec [OnCancelledThrowing 7, Call None, Cancel] (init_world :: (nat, nat) world, []) \<and>
   fst (resume \<lparr> f_options = None, f_deferred = 1, f_unregisterDeferred = Delete 2,
                 f_onChange = ResolveDeferred 1 \<rparr>
     (fst (exec [OnCancelled 7, Call None, Cancel] (init_world :: (nat, nat) world, []))))
     = Threw (CancellationTokenCancelledError ''operation cancelled'')"
  by (simp add: init_world_def waitForSnapshot_def loop_pass_def registerDeferred_def
      onCancelled_def Let_def new_Deferred_def resume_def wake_finally_def cancel_def
      forEach_call_Cons)

end
